theory Spec2Isabelle
  imports Complex_Main "HOL-Library.Word" "HOL-Library.Signed_Division"
begin

unbundle bit_operations_syntax

section \<open>Machine data\<close>

text \<open>
  The program is C on a little-endian 32-bit target. \<open>Uint8\<close>, \<open>Uint16\<close> and \<open>Uint32\<close> are
  words of that width (their arithmetic wraps). A C \<open>int\<close> is modelled as an unbounded
  \<open>int\<close>: every \<open>int\<close> of the program is a screen or sheet coordinate, a grid index or a
  pixel offset, signed overflow is undefined in C, and the model does not describe it.
  C's \<open>/\<close> and \<open>%\<close> on \<open>int\<close> truncate towards zero: they are \<open>sdiv\<close> and \<open>smod\<close>.

  Pixel memory is a list of bytes. An access outside the list is undefined behaviour in C;
  the model returns the fault \<open>OutOfBounds\<close> there, and a division by zero returns
  \<open>DivisionByZero\<close>. A record field is named after its struct and its C field
  (\<open>surf_w\<close> is \<open>SDL_Surface.w\<close>, \<open>rect_x\<close> is \<open>SDL_Rect.x\<close>, \<open>app_rot\<close> is \<open>App.rot\<close>).
\<close>

type_synonym Uint8 = "8 word"
type_synonym Uint16 = "16 word"
type_synonym Uint32 = "32 word"

datatype fault = OutOfBounds | DivisionByZero

definition in_range :: "Uint8 list \<Rightarrow> int \<Rightarrow> int \<Rightarrow> bool" where
  "in_range buf off n \<longleftrightarrow> 0 \<le> off \<and> 0 \<le> n \<and> off + n \<le> int (length buf)"

definition load_bytes :: "Uint8 list \<Rightarrow> int \<Rightarrow> int \<Rightarrow> fault + Uint8 list" where
  "load_bytes buf off n =
     (if in_range buf off n then Inr (take (nat n) (drop (nat off) buf)) else Inl OutOfBounds)"

definition store_bytes :: "Uint8 list \<Rightarrow> int \<Rightarrow> Uint8 list \<Rightarrow> fault + Uint8 list" where
  "store_bytes buf off bs =
     (if in_range buf off (int (length bs))
      then Inr (take (nat off) buf @ bs @ drop (nat off + length bs) buf)
      else Inl OutOfBounds)"

text \<open>\<open>memcpy(dst + doff, src + soff, n)\<close> between two distinct buffers.\<close>

definition memcpy :: "Uint8 list \<Rightarrow> int \<Rightarrow> Uint8 list \<Rightarrow> int \<Rightarrow> int \<Rightarrow> fault + Uint8 list" where
  "memcpy dbuf doff sbuf soff n =
     (case load_bytes sbuf soff n of
        Inl e \<Rightarrow> Inl e
      | Inr bs \<Rightarrow> store_bytes dbuf doff bs)"

text \<open>A \<open>Uint16\<close> read and write through a \<open>Uint16*\<close> at a byte offset (low byte first).\<close>

definition load16 :: "Uint8 list \<Rightarrow> int \<Rightarrow> fault + Uint16" where
  "load16 buf off =
     (case load_bytes buf off 2 of
        Inl e \<Rightarrow> Inl e
      | Inr bs \<Rightarrow> Inr (word_cat (bs ! 1) (bs ! 0)))"

definition store16 :: "Uint8 list \<Rightarrow> int \<Rightarrow> Uint16 \<Rightarrow> fault + Uint8 list" where
  "store16 buf off v = store_bytes buf off [ucast v, ucast (drop_bit 8 v)]"

text \<open>
  \<open>for (i = lo; i < hi; ++i) body\<close> and \<open>for (i = lo; i < hi; i += 2) body\<close>, over a loop
  state \<open>s\<close> (the variables the body assigns); a fault in the body ends the loop.
\<close>

function for_up :: "int \<Rightarrow> int \<Rightarrow> (int \<Rightarrow> 's \<Rightarrow> fault + 's) \<Rightarrow> 's \<Rightarrow> fault + 's" where
  "for_up i hi body s =
     (if i < hi then
        (case body i s of
           Inl e \<Rightarrow> Inl e
         | Inr s' \<Rightarrow> for_up (i + 1) hi body s')
      else Inr s)"
  by pat_completeness auto
termination
  by (relation "measure (\<lambda>(i, hi, body, s). nat (hi - i))") auto

function for_up2 :: "int \<Rightarrow> int \<Rightarrow> (int \<Rightarrow> 's \<Rightarrow> fault + 's) \<Rightarrow> 's \<Rightarrow> fault + 's" where
  "for_up2 i hi body s =
     (if i < hi then
        (case body i s of
           Inl e \<Rightarrow> Inl e
         | Inr s' \<Rightarrow> for_up2 (i + 2) hi body s')
      else Inr s)"
  by pat_completeness auto
termination
  by (relation "measure (\<lambda>(i, hi, body, s). nat (hi - i))") auto

declare for_up.simps [simp del] for_up2.simps [simp del]

section \<open>SDL data and the platform layer\<close>

type_synonym SDL_PixelFormat = Uint32

record SDL_PixelFormatDetails =
  pfd_format :: SDL_PixelFormat
  pfd_bytes_per_pixel :: Uint8

record SDL_Rect =
  rect_x :: int
  rect_y :: int
  rect_w :: int
  rect_h :: int

record SDL_Surface =
  surf_format :: SDL_PixelFormat
  surf_w :: int
  surf_h :: int
  surf_pitch :: int
  surf_pixels :: "Uint8 list"
  surf_colorkey :: "Uint32 option"

text \<open>
  The SDL functions the program calls are not part of the repository: they are fields of
  a \<open>platform\<close> the functions take as a parameter. \<open>SDL_LockSurface\<close> is the value the
  program compares with 0; \<open>SDL_CreateSurface\<close> is \<open>None\<close> when SDL returns \<open>NULL\<close>.
  \<open>float_round\<close> rounds a real number to the \<open>float\<close> the hardware stores: a \<open>float\<close>
  is modelled as the real number it denotes, and each \<open>float\<close> operation of the source rounds
  its exact result (infinities and NaN are not modelled).
\<close>

record platform =
  SDL_GetPixelFormatDetails :: "SDL_PixelFormat \<Rightarrow> SDL_PixelFormatDetails option"
  SDL_CreateSurface :: "int \<Rightarrow> int \<Rightarrow> SDL_PixelFormat \<Rightarrow> SDL_Surface option"
  SDL_LockSurface :: "SDL_Surface \<Rightarrow> int"
  SDL_MapRGB :: "SDL_PixelFormatDetails option \<Rightarrow> Uint8 \<Rightarrow> Uint8 \<Rightarrow> Uint8 \<Rightarrow> Uint32"
  SDL_FillSurfaceRect :: "SDL_Surface \<Rightarrow> SDL_Rect option \<Rightarrow> Uint32 \<Rightarrow> SDL_Surface"
  SDL_BlitSurface :: "SDL_Surface \<Rightarrow> SDL_Rect \<Rightarrow> SDL_Surface \<Rightarrow> SDL_Rect \<Rightarrow> bool \<times> SDL_Surface"
  SDL_BlitSurfaceScaled :: "SDL_Surface \<Rightarrow> SDL_Rect \<Rightarrow> SDL_Surface \<Rightarrow> SDL_Rect \<Rightarrow> bool \<times> SDL_Surface"
  float_round :: "real \<Rightarrow> real"

section \<open>Rotation preprocessor\<close>

definition surface_bpp :: "platform \<Rightarrow> SDL_Surface \<Rightarrow> int" where
  "surface_bpp P s =
     (case SDL_GetPixelFormatDetails P (surf_format s) of
        Some d \<Rightarrow> uint (pfd_bytes_per_pixel d)
      | None \<Rightarrow> 4)"

text \<open>
  The two loops of \<open>rotate90_cw\<close>: the loop state is the destination's pixel memory;
  \<open>dpitch\<close> is \<open>dst->pitch\<close>.
\<close>

definition rotate90_cw_px :: "SDL_Surface \<Rightarrow> int \<Rightarrow> int \<Rightarrow> int \<Rightarrow> int \<Rightarrow> int \<Rightarrow> Uint8 list \<Rightarrow> fault + Uint8 list" where
  "rotate90_cw_px src sh bpp dpitch y x dp =
     (let nx = sh - 1 - y; ny = x
      in memcpy dp (ny * dpitch + nx * bpp) (surf_pixels src) (y * surf_pitch src + x * bpp) bpp)"

definition rotate90_cw_row :: "SDL_Surface \<Rightarrow> int \<Rightarrow> int \<Rightarrow> int \<Rightarrow> int \<Rightarrow> int \<Rightarrow> Uint8 list \<Rightarrow> fault + Uint8 list" where
  "rotate90_cw_row src sw sh bpp dpitch y dp = for_up 0 sw (rotate90_cw_px src sh bpp dpitch y) dp"

definition rotate90_cw :: "platform \<Rightarrow> SDL_Surface \<Rightarrow> fault + SDL_Surface option" where
  "rotate90_cw P src =
     (let sw = surf_w src; sh = surf_h src; fmt = surf_format src
      in case SDL_CreateSurface P sh sw fmt of
           None \<Rightarrow> Inr None
         | Some dst \<Rightarrow>
             (let bpp = surface_bpp P src
              in if SDL_LockSurface P src < 0 then Inr None
                 else if SDL_LockSurface P dst < 0 then Inr None
                 else (case for_up 0 sh (rotate90_cw_row src sw sh bpp (surf_pitch dst)) (surf_pixels dst) of
                         Inl e \<Rightarrow> Inl e
                       | Inr dp \<Rightarrow> Inr (Some (dst\<lparr>surf_pixels := dp\<rparr>)))))"

text \<open>
  What the proofs need of a surface: its pixel memory holds \<open>h\<close> rows of \<open>pitch\<close> bytes and a
  row holds \<open>w\<close> pixels of \<open>bpp\<close> bytes. \<open>pixel_at\<close> reads the bytes of the pixel in column
  \<open>x\<close> of row \<open>y\<close>. \<open>create_ok\<close> is what the program relies on from \<open>SDL_CreateSurface\<close>: a
  surface it returns has the format and size asked for and memory for all its pixels.
\<close>

definition grid_ok :: "int \<Rightarrow> int \<Rightarrow> int \<Rightarrow> int \<Rightarrow> Uint8 list \<Rightarrow> bool" where
  "grid_ok B W H P buf \<longleftrightarrow> 0 \<le> B \<and> 0 \<le> W \<and> 0 \<le> H \<and> W * B \<le> P \<and> H * P \<le> int (length buf)"

definition surface_ok :: "platform \<Rightarrow> SDL_Surface \<Rightarrow> bool" where
  "surface_ok P s \<longleftrightarrow>
     grid_ok (surface_bpp P s) (surf_w s) (surf_h s) (surf_pitch s) (surf_pixels s)"

definition pixel_at :: "platform \<Rightarrow> SDL_Surface \<Rightarrow> int \<Rightarrow> int \<Rightarrow> fault + Uint8 list" where
  "pixel_at P s x y =
     load_bytes (surf_pixels s) (y * surf_pitch s + x * surface_bpp P s) (surface_bpp P s)"

definition create_ok :: "platform \<Rightarrow> bool" where
  "create_ok P \<longleftrightarrow>
     (\<forall>cw ch f d. SDL_CreateSurface P cw ch f = Some d \<longrightarrow>
        surf_format d = f \<and> surf_w d = cw \<and> surf_h d = ch \<and> surface_ok P d)"

section \<open>Application state\<close>

definition SPRITE_COLS :: int where "SPRITE_COLS = 8"
definition SPRITE_ROWS :: int where "SPRITE_ROWS = 4"

definition SCALE_OPTIONS :: "real list" where
  "SCALE_OPTIONS = [0.5, 1.0, 1.5, 2.0, 2.5, 3.0, 3.5, 4.0, 5.0, 6.0]"

definition SCALE_COUNT :: int where
  "SCALE_COUNT = int (length SCALE_OPTIONS)"

definition DEFAULT_SCALE :: real where "DEFAULT_SCALE = 2.0"

text \<open>\<open>SCALE_OPTIONS[i]\<close>.\<close>

definition scale_option :: "int \<Rightarrow> fault + real" where
  "scale_option i =
     (if 0 \<le> i \<and> i < SCALE_COUNT then Inr (SCALE_OPTIONS ! nat i) else Inl OutOfBounds)"

text \<open>
  The struct \<open>App\<close>. \<open>window\<close> is a handle of the platform and has no field here;
  \<open>win\<close>, \<open>sheet_base\<close> and \<open>sheet_rot\<close> are pointers to surfaces in C and hold the surfaces here
  (\<open>sheet_rot[0]\<close> and \<open>sheet_base\<close> point to the same surface, which the program only reads).
\<close>

record App =
  app_win :: SDL_Surface
  app_screen_w :: int
  app_screen_h :: int
  app_sheet_base :: SDL_Surface
  app_sheet_rot :: "SDL_Surface list"
  app_tex_w :: int
  app_tex_h :: int
  app_fw :: int
  app_fh :: int
  app_cols :: int
  app_rows :: int
  app_frames :: int
  app_anim_step_ms_base :: Uint32
  app_anim_step_ms_eff :: Uint32
  app_ms_accum :: Uint32
  app_last_ms :: Uint32
  app_frame :: int
  app_x :: real
  app_y :: real
  app_vx :: real
  app_vy :: real
  app_rot :: int
  app_scale :: real
  app_scale_idx :: int
  app_black :: Uint32
  app_prev_dst :: SDL_Rect
  app_has_prev :: bool
  app_is565 :: bool
  app_key565 :: Uint16

text \<open>\<open>a->sheet_rot[rot]\<close>, an array of four surfaces.\<close>

definition sheet_rot_at :: "App \<Rightarrow> int \<Rightarrow> fault + SDL_Surface" where
  "sheet_rot_at a rot =
     (if 0 \<le> rot \<and> rot < 4 \<and> nat rot < length (app_sheet_rot a)
      then Inr (app_sheet_rot a ! nat rot) else Inl OutOfBounds)"

text \<open>The \<open>float\<close> operations: each rounds its exact result; \<open>(int)f\<close> truncates towards zero.\<close>

definition f_of_int :: "platform \<Rightarrow> int \<Rightarrow> real" where
  "f_of_int P n = float_round P (of_int n)"

definition f_add :: "platform \<Rightarrow> real \<Rightarrow> real \<Rightarrow> real" where
  "f_add P a b = float_round P (a + b)"

definition f_sub :: "platform \<Rightarrow> real \<Rightarrow> real \<Rightarrow> real" where
  "f_sub P a b = float_round P (a - b)"

definition f_mul :: "platform \<Rightarrow> real \<Rightarrow> real \<Rightarrow> real" where
  "f_mul P a b = float_round P (a * b)"

definition int_of_float :: "real \<Rightarrow> int" where
  "int_of_float r = (if 0 \<le> r then \<lfloor>r\<rfloor> else \<lceil>r\<rceil>)"

text \<open>
  What the proofs use of the rounding of \<open>float\<close>: it is monotone, and it is exact on every
  multiple of one half up to \<open>2^23\<close> in magnitude (such a number has at most 24 significant
  bits). Rounding to nearest in the IEEE single format has both properties.
\<close>

definition float_ok :: "platform \<Rightarrow> bool" where
  "float_ok P \<longleftrightarrow>
     mono (float_round P) \<and>
     (\<forall>n::int. \<bar>n\<bar> \<le> 2 ^ 24 \<longrightarrow> float_round P (of_int n / 2) = of_int n / 2)"

section \<open>Frame locator\<close>

text \<open>\<open>grid_for_rot\<close> returns \<open>(cols, rows, fw, fh)\<close>, \<open>map_cell_for_rot\<close> returns \<open>(out_r, out_c)\<close>.\<close>

definition grid_for_rot :: "App \<Rightarrow> int \<Rightarrow> int \<times> int \<times> int \<times> int" where
  "grid_for_rot a rot =
     (let r = rot AND 3
      in if r = 0 \<or> r = 2 then (app_cols a, app_rows a, app_fw a, app_fh a)
         else (app_rows a, app_cols a, app_fh a, app_fw a))"

definition map_cell_for_rot :: "App \<Rightarrow> int \<Rightarrow> int \<Rightarrow> int \<Rightarrow> int \<times> int" where
  "map_cell_for_rot a rot base_r base_c =
     (let C = app_cols a; R = app_rows a; r = rot AND 3
      in if r = 0 then (base_r, base_c)
         else if r = 1 then (base_c, R - 1 - base_r)
         else if r = 2 then (R - 1 - base_r, C - 1 - base_c)
         else (C - 1 - base_c, base_r))"

definition get_src_for_frame_rot :: "App \<Rightarrow> int \<Rightarrow> int \<Rightarrow> fault + SDL_Rect" where
  "get_src_for_frame_rot a idx rot =
     (case sheet_rot_at a rot of
        Inl e \<Rightarrow> Inl e
      | Inr sheet \<Rightarrow>
          (case grid_for_rot a rot of (cols_r, rows_r, fw_r, fh_r) \<Rightarrow>
             if cols_r = 0 \<or> rows_r = 0 \<or> app_cols a = 0 then Inl DivisionByZero
             else
               (let fw_i = surf_w sheet sdiv cols_r;
                    fh_i = surf_h sheet sdiv rows_r;
                    base_c = idx smod app_cols a;
                    base_r = idx sdiv app_cols a
                in case map_cell_for_rot a rot base_r base_c of (rr, cc) \<Rightarrow>
                     (let x = cc * fw_i;
                          y = rr * fh_i;
                          w = (if cc = cols_r - 1 then surf_w sheet - x else fw_i);
                          h = (if rr = rows_r - 1 then surf_h sheet - y else fh_i);
                          x = (if x < 0 then 0 else x);
                          y = (if y < 0 then 0 else y);
                          w = (if w < 0 then 0 else w);
                          h = (if h < 0 then 0 else h);
                          w = (if x + w > surf_w sheet then surf_w sheet - x else w);
                          h = (if y + h > surf_h sheet then surf_h sheet - y else h)
                      in Inr \<lparr>rect_x = x, rect_y = y, rect_w = w, rect_h = h\<rparr>))))"

text \<open>\<open>draw_size_for_rot\<close> returns \<open>(dw, dh)\<close>.\<close>

definition draw_size_for_rot :: "platform \<Rightarrow> App \<Rightarrow> int \<Rightarrow> int \<times> int" where
  "draw_size_for_rot P a rot =
     (case grid_for_rot a rot of (cols_r, rows_r, fw_r, fh_r) \<Rightarrow>
        (let w = int_of_float (f_add P (f_mul P (f_of_int P fw_r) (app_scale a)) 0.5);
             h = int_of_float (f_add P (f_mul P (f_of_int P fh_r) (app_scale a)) 0.5)
         in (w, h)))"

definition clamp_xy_for_rot :: "platform \<Rightarrow> App \<Rightarrow> App" where
  "clamp_xy_for_rot P a =
     (case draw_size_for_rot P a (app_rot a) of (dw, dh) \<Rightarrow>
        (let a = (if app_x a < 0 then a\<lparr>app_x := 0\<rparr> else a);
             a = (if app_y a < 0 then a\<lparr>app_y := 0\<rparr> else a);
             a = (if f_add P (app_x a) (f_of_int P dw) > f_of_int P (app_screen_w a)
                  then a\<lparr>app_x := f_of_int P (app_screen_w a - dw)\<rparr> else a);
             a = (if f_add P (app_y a) (f_of_int P dh) > f_of_int P (app_screen_h a)
                  then a\<lparr>app_y := f_of_int P (app_screen_h a - dh)\<rparr> else a)
         in a))"

text \<open>The loop of \<open>find_closest_scale_index\<close>; its state is \<open>(best, bestdiff)\<close>.\<close>

definition find_closest_step :: "platform \<Rightarrow> real \<Rightarrow> int \<Rightarrow> int \<times> real \<Rightarrow> fault + int \<times> real" where
  "find_closest_step P target i s =
     (case s of (best, bestdiff) \<Rightarrow>
        (case scale_option i of
           Inl e \<Rightarrow> Inl e
         | Inr opt \<Rightarrow>
             (let d = f_sub P target opt;
                  d = (if d < 0 then - d else d)
              in if d < bestdiff then Inr (i, d) else Inr (best, bestdiff))))"

definition find_closest_scale_index :: "platform \<Rightarrow> real \<Rightarrow> fault + int" where
  "find_closest_scale_index P target =
     (case for_up 0 SCALE_COUNT (find_closest_step P target) (0, 1000000000) of
        Inl e \<Rightarrow> Inl e
      | Inr (best, bestdiff) \<Rightarrow> Inr best)"

definition update_anim_budget :: "App \<Rightarrow> App" where
  "update_anim_budget a =
     (let s = app_scale a;
          mul = (if s \<ge> 3.5 then 3 else if s \<ge> 2.5 then 2 else 1)
      in a\<lparr>app_anim_step_ms_eff := app_anim_step_ms_base a * mul\<rparr>)"

section \<open>Fast RGB565 scaling blit\<close>

text \<open>
  The loops of \<open>blit_colorkey_scale_fast_RGB565\<close>, innermost first. \<open>sp\<close> is the source's pixel
  memory, which the loops only read; the destination's pixel memory \<open>dp\<close> is the loop state,
  together with the cursor \<open>dx\<close> in the loops over \<open>sx\<close>. \<open>srow\<close> and \<open>drow\<close> are the byte
  offsets of the row pointers of the same name. The two surfaces are distinct objects.
\<close>

definition blit_up_rep :: "int \<Rightarrow> int \<Rightarrow> Uint16 \<Rightarrow> int \<Rightarrow> Uint8 list \<Rightarrow> fault + Uint8 list" where
  "blit_up_rep drow dx pix i dp = store16 dp (drow + 2 * (dx + i)) pix"

definition blit_up_sx :: "Uint8 list \<Rightarrow> int \<Rightarrow> int \<Rightarrow> Uint16 \<Rightarrow> int \<Rightarrow> int \<Rightarrow> int \<times> Uint8 list \<Rightarrow> fault + int \<times> Uint8 list" where
  "blit_up_sx sp srow drow key565 iscale sx s =
     (case s of (dx, dp) \<Rightarrow>
        (case load16 sp (srow + 2 * sx) of
           Inl e \<Rightarrow> Inl e
         | Inr pix \<Rightarrow>
             if pix = key565 then Inr (dx + iscale, dp)
             else (case for_up 0 iscale (blit_up_rep drow dx pix) dp of
                     Inl e \<Rightarrow> Inl e
                   | Inr dp' \<Rightarrow> Inr (dx + iscale, dp'))))"

definition blit_up_vy :: "Uint8 list \<Rightarrow> int \<Rightarrow> SDL_Rect \<Rightarrow> int \<Rightarrow> SDL_Rect \<Rightarrow> Uint16 \<Rightarrow> int \<Rightarrow> int \<Rightarrow> int \<Rightarrow> Uint8 list \<Rightarrow> fault + Uint8 list" where
  "blit_up_vy sp srow sr dpitch dr key565 iscale sy vy dp =
     (let drow = (rect_y dr + sy * iscale + vy) * dpitch + 2 * rect_x dr
      in case for_up 0 (rect_w sr) (blit_up_sx sp srow drow key565 iscale) (0, dp) of
           Inl e \<Rightarrow> Inl e
         | Inr (dx, dp') \<Rightarrow> Inr dp')"

definition blit_up_sy :: "Uint8 list \<Rightarrow> int \<Rightarrow> SDL_Rect \<Rightarrow> int \<Rightarrow> SDL_Rect \<Rightarrow> Uint16 \<Rightarrow> int \<Rightarrow> int \<Rightarrow> Uint8 list \<Rightarrow> fault + Uint8 list" where
  "blit_up_sy sp spitch sr dpitch dr key565 iscale sy dp =
     (let srow = (rect_y sr + sy) * spitch + 2 * rect_x sr
      in for_up 0 iscale (blit_up_vy sp srow sr dpitch dr key565 iscale sy) dp)"

definition blit_half_sx :: "Uint8 list \<Rightarrow> int \<Rightarrow> int \<Rightarrow> Uint16 \<Rightarrow> int \<Rightarrow> int \<times> Uint8 list \<Rightarrow> fault + int \<times> Uint8 list" where
  "blit_half_sx sp srow drow key565 sx s =
     (case s of (dx, dp) \<Rightarrow>
        (case load16 sp (srow + 2 * sx) of
           Inl e \<Rightarrow> Inl e
         | Inr pix \<Rightarrow>
             if pix \<noteq> key565
             then (case store16 dp (drow + 2 * dx) pix of
                     Inl e \<Rightarrow> Inl e
                   | Inr dp' \<Rightarrow> Inr (dx + 1, dp'))
             else Inr (dx + 1, dp)))"

definition blit_half_sy :: "Uint8 list \<Rightarrow> int \<Rightarrow> SDL_Rect \<Rightarrow> int \<Rightarrow> SDL_Rect \<Rightarrow> Uint16 \<Rightarrow> int \<Rightarrow> Uint8 list \<Rightarrow> fault + Uint8 list" where
  "blit_half_sy sp spitch sr dpitch dr key565 sy dp =
     (let srow = (rect_y sr + sy) * spitch + 2 * rect_x sr;
          drow = (rect_y dr + drop_bit 1 sy) * dpitch + 2 * rect_x dr
      in case for_up2 0 (rect_w sr) (blit_half_sx sp srow drow key565) (0, dp) of
           Inl e \<Rightarrow> Inl e
         | Inr (dx, dp') \<Rightarrow> Inr dp')"

text \<open>
  The result is the returned \<open>bool\<close> and the destination surface after the call.
\<close>

definition blit_colorkey_scale_fast_RGB565 ::
  "platform \<Rightarrow> SDL_Surface \<Rightarrow> SDL_Rect \<Rightarrow> SDL_Surface \<Rightarrow> SDL_Rect \<Rightarrow> Uint16 \<Rightarrow> real \<Rightarrow> fault + bool \<times> SDL_Surface" where
  "blit_colorkey_scale_fast_RGB565 P src sr dst dr key565 scale =
     (case SDL_GetPixelFormatDetails P (surf_format src) of
        None \<Rightarrow> Inr (False, dst)
      | Some sd \<Rightarrow>
          (case SDL_GetPixelFormatDetails P (surf_format dst) of
             None \<Rightarrow> Inr (False, dst)
           | Some dd \<Rightarrow>
               if pfd_bytes_per_pixel sd \<noteq> 2 \<or> pfd_bytes_per_pixel dd \<noteq> 2 then Inr (False, dst)
               else
                 (case (if scale = 2 then Some (2, False)
                        else if scale = 3 then Some (3, False)
                        else if scale = 4 then Some (4, False)
                        else if scale = 0.5 then Some (0, True)
                        else None) of
                    None \<Rightarrow> Inr (False, dst)
                  | Some (iscale, half) \<Rightarrow>
                      if SDL_LockSurface P src < 0 then Inr (False, dst)
                      else if SDL_LockSurface P dst < 0 then Inr (False, dst)
                      else
                        (let sp = surf_pixels src; dp = surf_pixels dst;
                             spitch = surf_pitch src; dpitch = surf_pitch dst
                         in case (if \<not> half
                                  then for_up 0 (rect_h sr)
                                         (blit_up_sy sp spitch sr dpitch dr key565 iscale) dp
                                  else for_up2 0 (rect_h sr)
                                         (blit_half_sy sp spitch sr dpitch dr key565) dp) of
                              Inl e \<Rightarrow> Inl e
                            | Inr dp' \<Rightarrow> Inr (True, dst\<lparr>surf_pixels := dp'\<rparr>)))))"

section \<open>Session controller\<close>

datatype SDL_AppResult = SDL_APP_CONTINUE | SDL_APP_SUCCESS | SDL_APP_FAILURE

datatype SDL_Scancode =
    SDL_SCANCODE_ESCAPE | SDL_SCANCODE_Q | SDL_SCANCODE_AC_BACK | SDL_SCANCODE_RETURN
  | SDL_SCANCODE_SPACE | SDL_SCANCODE_R | SDL_SCANCODE_S | SDL_SCANCODE_OTHER

text \<open>\<open>SDL_Log\<close> has no effect on the state and is left out.\<close>

definition app_key :: "platform \<Rightarrow> SDL_Scancode \<Rightarrow> App \<Rightarrow> fault + SDL_AppResult \<times> App" where
  "app_key P code a =
     (if code = SDL_SCANCODE_ESCAPE \<or> code = SDL_SCANCODE_Q \<or> code = SDL_SCANCODE_AC_BACK \<or>
         code = SDL_SCANCODE_RETURN \<or> code = SDL_SCANCODE_SPACE
      then Inr (SDL_APP_SUCCESS, a)
      else if code = SDL_SCANCODE_R then
        (let a = a\<lparr>app_rot := (app_rot a + 1) AND 3\<rparr>;
             a = a\<lparr>app_has_prev := False\<rparr>;
             a = clamp_xy_for_rot P a;
             a = a\<lparr>app_win := SDL_FillSurfaceRect P (app_win a) None (app_black a)\<rparr>
         in Inr (SDL_APP_CONTINUE, a))
      else if code = SDL_SCANCODE_S then
        (let a = a\<lparr>app_scale_idx := (app_scale_idx a + 1) smod SCALE_COUNT\<rparr>
         in case scale_option (app_scale_idx a) of
              Inl e \<Rightarrow> Inl e
            | Inr sc \<Rightarrow>
                (let a = a\<lparr>app_scale := sc\<rparr>;
                     a = update_anim_budget a;
                     a = a\<lparr>app_has_prev := False\<rparr>;
                     a = clamp_xy_for_rot P a;
                     a = a\<lparr>app_win := SDL_FillSurfaceRect P (app_win a) None (app_black a)\<rparr>
                 in Inr (SDL_APP_CONTINUE, a)))
      else Inr (SDL_APP_CONTINUE, a))"

text \<open>
  The part of \<open>SDL_AppInit\<close> that sets the initial scale:
  \<open>a->scale_idx = find_closest_scale_index(DEFAULT_SCALE); a->scale = SCALE_OPTIONS[a->scale_idx];
  update_anim_budget(a);\<close>
\<close>

definition SDL_AppInit_scale :: "platform \<Rightarrow> App \<Rightarrow> fault + App" where
  "SDL_AppInit_scale P a =
     (case find_closest_scale_index P DEFAULT_SCALE of
        Inl e \<Rightarrow> Inl e
      | Inr i \<Rightarrow>
          (let a = a\<lparr>app_scale_idx := i\<rparr>
           in case scale_option (app_scale_idx a) of
                Inl e \<Rightarrow> Inl e
              | Inr sc \<Rightarrow> Inr (update_anim_budget (a\<lparr>app_scale := sc\<rparr>))))"

text \<open>
  \<open>SDL_AppIterate\<close>, in the order of the source. The animation loop
  \<open>while (a->ms_accum >= a->anim_step_ms_eff) { ... }\<close> does not end when the step is 0:
  \<open>anim_loop\<close> is \<open>None\<close> then.
\<close>

partial_function (option) anim_loop :: "Uint32 \<Rightarrow> int \<Rightarrow> Uint32 \<Rightarrow> int \<Rightarrow> (fault + Uint32 \<times> int) option" where
  "anim_loop step frames ms_accum frame =
     (if ms_accum \<ge> step then
        (if frames = 0 then Some (Inl DivisionByZero)
         else anim_loop step frames (ms_accum - step) ((frame + 1) smod frames))
      else Some (Inr (ms_accum, frame)))"

definition iterate_anim :: "Uint32 \<Rightarrow> App \<Rightarrow> (fault + App) option" where
  "iterate_anim now a =
     (let delta = now - app_last_ms a;
          a = a\<lparr>app_last_ms := now\<rparr>;
          a = a\<lparr>app_ms_accum := app_ms_accum a + delta\<rparr>
      in case anim_loop (app_anim_step_ms_eff a) (app_frames a) (app_ms_accum a) (app_frame a) of
           None \<Rightarrow> None
         | Some (Inl e) \<Rightarrow> Some (Inl e)
         | Some (Inr (acc, fr)) \<Rightarrow> Some (Inr (a\<lparr>app_ms_accum := acc, app_frame := fr\<rparr>)))"

text \<open>Move and bounce, with the draw size \<open>(dw, dh)\<close> computed before the move.\<close>

definition iterate_move :: "platform \<Rightarrow> int \<Rightarrow> int \<Rightarrow> App \<Rightarrow> App" where
  "iterate_move P dw dh a =
     (let a = a\<lparr>app_x := f_add P (app_x a) (app_vx a)\<rparr>;
          a = a\<lparr>app_y := f_add P (app_y a) (app_vy a)\<rparr>;
          a = (if app_x a < 0 then a\<lparr>app_x := 0, app_vx := - app_vx a\<rparr> else a);
          a = (if f_add P (app_x a) (f_of_int P dw) > f_of_int P (app_screen_w a)
               then a\<lparr>app_x := f_of_int P (app_screen_w a - dw), app_vx := - app_vx a\<rparr> else a);
          a = (if app_y a < 0 then a\<lparr>app_y := 0, app_vy := - app_vy a\<rparr> else a);
          a = (if f_add P (app_y a) (f_of_int P dh) > f_of_int P (app_screen_h a)
               then a\<lparr>app_y := f_of_int P (app_screen_h a - dh), app_vy := - app_vy a\<rparr> else a)
      in a)"

text \<open>
  The rest of the tick: the dirty-rect clear, the source and destination rectangles, the blit
  and the dirty-rect tracking. \<open>SDL_UpdateWindowSurface\<close> and \<open>SDL_Delay\<close> do not change the
  state. \<open>iterate_blit\<close> returns \<open>blit_ok\<close>, the window surface after the blit and \<open>dst\<close>.
  The two blit functions of SDL take \<open>dst\<close> as a pointer to a constant rectangle: they return
  their result and the window surface they drew on, and leave \<open>dst\<close> as it is.
\<close>

definition iterate_blit :: "platform \<Rightarrow> App \<Rightarrow> SDL_Surface \<Rightarrow> SDL_Rect \<Rightarrow> SDL_Rect \<Rightarrow> fault + bool \<times> SDL_Surface \<times> SDL_Rect" where
  "iterate_blit P a sheet src dst =
     (if app_scale a = 1 then
        (let dst = dst\<lparr>rect_w := rect_w src, rect_h := rect_h src\<rparr>
         in case SDL_BlitSurface P sheet src (app_win a) dst of
              (blit_ok, win') \<Rightarrow> Inr (blit_ok, win', dst))
      else if app_is565 a then
        (case blit_colorkey_scale_fast_RGB565 P sheet src (app_win a) dst (app_key565 a) (app_scale a) of
           Inl e \<Rightarrow> Inl e
         | Inr (handled, win') \<Rightarrow>
             if \<not> handled
             then (case SDL_BlitSurfaceScaled P sheet src win' dst of
                     (blit_ok, win'') \<Rightarrow> Inr (blit_ok, win'', dst))
             else Inr (True, win', dst))
      else
        (case SDL_BlitSurfaceScaled P sheet src (app_win a) dst of
           (blit_ok, win') \<Rightarrow> Inr (blit_ok, win', dst)))"

definition iterate_draw :: "platform \<Rightarrow> int \<Rightarrow> int \<Rightarrow> App \<Rightarrow> fault + SDL_AppResult \<times> App" where
  "iterate_draw P dw dh a =
     (let a = (if app_has_prev a
               then a\<lparr>app_win := SDL_FillSurfaceRect P (app_win a) (Some (app_prev_dst a)) (app_black a)\<rparr>
               else a)
      in case sheet_rot_at a (app_rot a) of
           Inl e \<Rightarrow> Inl e
         | Inr sheet \<Rightarrow>
             (case get_src_for_frame_rot a (app_frame a) (app_rot a) of
                Inl e \<Rightarrow> Inl e
              | Inr src \<Rightarrow>
                  (let dst = \<lparr>rect_x = int_of_float (app_x a), rect_y = int_of_float (app_y a),
                              rect_w = dw, rect_h = dh\<rparr>
                   in case iterate_blit P a sheet src dst of
                        Inl e \<Rightarrow> Inl e
                      | Inr (blit_ok, win', dst) \<Rightarrow>
                          (let a = a\<lparr>app_win := win'\<rparr>;
                               a = a\<lparr>app_prev_dst := dst\<rparr>;
                               a = a\<lparr>app_has_prev := True\<rparr>
                           in Inr (SDL_APP_CONTINUE, a)))))"

text \<open>\<open>now\<close> is the value of \<open>(Uint32)SDL_GetTicks()\<close>.\<close>

definition SDL_AppIterate :: "platform \<Rightarrow> Uint32 \<Rightarrow> App \<Rightarrow> (fault + SDL_AppResult \<times> App) option" where
  "SDL_AppIterate P now a =
     (case iterate_anim now a of
        None \<Rightarrow> None
      | Some (Inl e) \<Rightarrow> Some (Inl e)
      | Some (Inr a) \<Rightarrow>
          (case draw_size_for_rot P a (app_rot a) of (dw, dh) \<Rightarrow>
             Some (iterate_draw P dw dh (iterate_move P dw dh a))))"

section \<open>A reference platform\<close>

text \<open>
  A platform with exact arithmetic, two bytes per pixel in every format, and surfaces whose
  rows are stored without padding; and a surface of two pixels.
\<close>

definition packed_platform :: platform where
  "packed_platform =
     \<lparr>SDL_GetPixelFormatDetails = (\<lambda>f. Some \<lparr>pfd_format = f, pfd_bytes_per_pixel = 2\<rparr>),
      SDL_CreateSurface = (\<lambda>cw ch f.
         if cw < 0 \<or> ch < 0 then None
         else Some \<lparr>surf_format = f, surf_w = cw, surf_h = ch, surf_pitch = 2 * cw,
                    surf_pixels = replicate (nat (ch * (2 * cw))) 0, surf_colorkey = None\<rparr>),
      SDL_LockSurface = (\<lambda>s. 1),
      SDL_MapRGB = (\<lambda>d r g b. 0),
      SDL_FillSurfaceRect = (\<lambda>s r c. s),
      SDL_BlitSurface = (\<lambda>s sr d dr. (True, d)),
      SDL_BlitSurfaceScaled = (\<lambda>s sr d dr. (False, d)),
      float_round = (\<lambda>r. r)\<rparr>"

definition two_pixels :: SDL_Surface where
  "two_pixels = \<lparr>surf_format = 0, surf_w = 2, surf_h = 1, surf_pitch = 4,
                  surf_pixels = [1, 2, 3, 4], surf_colorkey = None\<rparr>"

section \<open>Example states\<close>

text \<open>
  The state \<open>SDL_AppInit\<close> builds on a 720 x 720 RGB565 window from a sheet of \<open>tw\<close> x \<open>th\<close>
  pixels that all have the value \<open>0xAAAA\<close>: the grid is \<open>SPRITE_COLS\<close> x \<open>SPRITE_ROWS\<close>, the
  scale is the default 2.0, the colorkey is the gray (32, 32, 32), \<open>0x2104\<close> in RGB565.
\<close>

definition example_window :: SDL_Surface where
  "example_window = \<lparr>surf_format = 0, surf_w = 720, surf_h = 720, surf_pitch = 1440,
                      surf_pixels = replicate 1036800 0, surf_colorkey = None\<rparr>"

definition example_sheet :: "int \<Rightarrow> int \<Rightarrow> SDL_Surface" where
  "example_sheet sw sh = \<lparr>surf_format = 0, surf_w = sw, surf_h = sh, surf_pitch = 2 * sw,
                           surf_pixels = replicate (nat (sh * (2 * sw))) 0xAA,
                           surf_colorkey = Some 0x2104\<rparr>"

definition example_app :: "int \<Rightarrow> int \<Rightarrow> App" where
  "example_app tw th =
     \<lparr>app_win = example_window, app_screen_w = 720, app_screen_h = 720,
      app_sheet_base = example_sheet tw th,
      app_sheet_rot = [example_sheet tw th, example_sheet th tw, example_sheet tw th, example_sheet th tw],
      app_tex_w = tw, app_tex_h = th, app_fw = tw sdiv SPRITE_COLS, app_fh = th sdiv SPRITE_ROWS,
      app_cols = SPRITE_COLS, app_rows = SPRITE_ROWS, app_frames = SPRITE_COLS * SPRITE_ROWS,
      app_anim_step_ms_base = 41, app_anim_step_ms_eff = 41, app_ms_accum = 0, app_last_ms = 0,
      app_frame = 0,
      app_x = of_int (720 - 2 * (tw sdiv SPRITE_COLS)) * 0.5,
      app_y = of_int (720 - 2 * (th sdiv SPRITE_ROWS)) * 0.5,
      app_vx = 1.8, app_vy = 1.4,
      app_rot = 0, app_scale = 2.0, app_scale_idx = 3,
      app_black = 0, app_prev_dst = \<lparr>rect_x = 0, rect_y = 0, rect_w = 0, rect_h = 0\<rparr>,
      app_has_prev = False, app_is565 = True, app_key565 = 0x2104\<rparr>"

section \<open>Specification functions\<close>

text \<open>
  \<open>get_src_for_frame_rot\<close> computes \<open>(x, w)\<close> from the sheet's width, the column count and the
  column, and \<open>(y, h)\<close> from the height, the row count and the row, by the same steps:
\<close>

definition src_rect_1d :: "int \<Rightarrow> int \<Rightarrow> int \<Rightarrow> int \<times> int" where
  "src_rect_1d W n c =
     (let f = W sdiv n; x = c * f; w = (if c = n - 1 then W - x else f);
          x = (if x < 0 then 0 else x); w = (if w < 0 then 0 else w);
          w = (if x + w > W then W - x else w)
      in (x, w))"

text \<open>
  The vocabulary of the statements about the fast blit. \<open>pixel16\<close> reads the 16-bit pixel in
  column \<open>x\<close> of row \<open>y\<close>. For a scale of the fast path, \<open>fast_extent\<close> is the number of
  destination columns (rows) written for \<open>n\<close> source columns (rows), \<open>fast_source\<close> is the source
  column (row) sampled for the destination column (row) at offset \<open>d\<close>, and \<open>fast_region\<close> is
  the destination region the loops run over. \<open>fast_ready\<close> says that both surfaces have two
  bytes per pixel and memory for all their pixels, and that the locks succeed.
\<close>

definition pixel16 :: "SDL_Surface \<Rightarrow> int \<Rightarrow> int \<Rightarrow> fault + Uint16" where
  "pixel16 s x y = load16 (surf_pixels s) (y * surf_pitch s + x * 2)"

definition fast_iscale :: "real \<Rightarrow> int" where
  "fast_iscale scale = (if scale = 2 then 2 else if scale = 3 then 3 else if scale = 4 then 4 else 0)"

definition fast_extent :: "real \<Rightarrow> int \<Rightarrow> int" where
  "fast_extent scale n = (if scale = 0.5 then (n + 1) div 2 else n * fast_iscale scale)"

definition fast_source :: "real \<Rightarrow> int \<Rightarrow> int" where
  "fast_source scale d = (if scale = 0.5 then 2 * d else d div fast_iscale scale)"

definition fast_region :: "SDL_Rect \<Rightarrow> SDL_Rect \<Rightarrow> real \<Rightarrow> SDL_Rect" where
  "fast_region sr dr scale =
     \<lparr>rect_x = rect_x dr, rect_y = rect_y dr,
      rect_w = fast_extent scale (rect_w sr), rect_h = fast_extent scale (rect_h sr)\<rparr>"

definition rect_in_surface :: "SDL_Rect \<Rightarrow> SDL_Surface \<Rightarrow> bool" where
  "rect_in_surface r s \<longleftrightarrow>
     0 \<le> rect_x r \<and> 0 \<le> rect_y r \<and> 0 \<le> rect_w r \<and> 0 \<le> rect_h r \<and>
     rect_x r + rect_w r \<le> surf_w s \<and> rect_y r + rect_h r \<le> surf_h s"

definition in_rect :: "SDL_Rect \<Rightarrow> int \<Rightarrow> int \<Rightarrow> bool" where
  "in_rect r X Y \<longleftrightarrow>
     rect_x r \<le> X \<and> X < rect_x r + rect_w r \<and> rect_y r \<le> Y \<and> Y < rect_y r + rect_h r"

definition fast_sample :: "SDL_Surface \<Rightarrow> SDL_Rect \<Rightarrow> SDL_Rect \<Rightarrow> real \<Rightarrow> int \<Rightarrow> int \<Rightarrow> fault + Uint16" where
  "fast_sample src sr dr scale X Y =
     pixel16 src (rect_x sr + fast_source scale (X - rect_x dr))
                 (rect_y sr + fast_source scale (Y - rect_y dr))"

definition fast_ready :: "platform \<Rightarrow> SDL_Surface \<Rightarrow> SDL_Surface \<Rightarrow> bool" where
  "fast_ready P src dst \<longleftrightarrow>
     (\<exists>sd dd. SDL_GetPixelFormatDetails P (surf_format src) = Some sd \<and>
              SDL_GetPixelFormatDetails P (surf_format dst) = Some dd \<and>
              pfd_bytes_per_pixel sd = 2 \<and> pfd_bytes_per_pixel dd = 2) \<and>
     \<not> SDL_LockSurface P src < 0 \<and> \<not> SDL_LockSurface P dst < 0 \<and>
     surface_ok P src \<and> surface_ok P dst"

text \<open>
  The vocabulary of the statements about a whole tick. \<open>tick_dst\<close> is the destination rectangle
  \<open>SDL_AppIterate\<close> computes, as a function of the state after the move: the position cast to
  \<open>int\<close> and the draw size, with the source rectangle's width and height at scale 1.0.

  \<open>platform_ok\<close> is what the tick relies on from the platform: the rounding of \<open>float\<close>, locks
  that do not fail, and fills and blits that leave the format, the size, the pitch and the
  amount of pixel memory of the surface they draw into as they are. \<open>app_ok\<close> describes the
  states in which the fast path stays inside its surfaces: the grid divides the sheet without
  remainder, the four sheets have the sizes the rotations give them, the window is the screen,
  the draw size fits the screen, twice the scale is a whole number between 1 and 12 (as for
  every entry of \<open>SCALE_OPTIONS\<close>), and, when the window is RGB565, all surfaces have two bytes
  per pixel and memory for all their pixels.
\<close>

definition tick_dst :: "platform \<Rightarrow> App \<Rightarrow> fault + SDL_Rect" where
  "tick_dst P a =
     (case get_src_for_frame_rot a (app_frame a) (app_rot a) of
        Inl e \<Rightarrow> Inl e
      | Inr src \<Rightarrow>
          (case draw_size_for_rot P a (app_rot a) of (dw, dh) \<Rightarrow>
             Inr \<lparr>rect_x = int_of_float (app_x a), rect_y = int_of_float (app_y a),
                  rect_w = (if app_scale a = 1 then rect_w src else dw),
                  rect_h = (if app_scale a = 1 then rect_h src else dh)\<rparr>))"

definition same_geometry :: "SDL_Surface \<Rightarrow> SDL_Surface \<Rightarrow> bool" where
  "same_geometry s t \<longleftrightarrow>
     surf_format t = surf_format s \<and> surf_w t = surf_w s \<and> surf_h t = surf_h s \<and>
     surf_pitch t = surf_pitch s \<and> length (surf_pixels t) = length (surf_pixels s)"

definition platform_ok :: "platform \<Rightarrow> bool" where
  "platform_ok P \<longleftrightarrow>
     float_ok P \<and>
     (\<forall>s. \<not> SDL_LockSurface P s < 0) \<and>
     (\<forall>s r c. same_geometry s (SDL_FillSurfaceRect P s r c)) \<and>
     (\<forall>s sr d dr. same_geometry d (snd (SDL_BlitSurface P s sr d dr))) \<and>
     (\<forall>s sr d dr. same_geometry d (snd (SDL_BlitSurfaceScaled P s sr d dr)))"

definition bpp2 :: "platform \<Rightarrow> SDL_Surface \<Rightarrow> bool" where
  "bpp2 P s \<longleftrightarrow>
     (\<exists>d. SDL_GetPixelFormatDetails P (surf_format s) = Some d \<and> pfd_bytes_per_pixel d = 2)"

definition app_ok :: "platform \<Rightarrow> App \<Rightarrow> bool" where
  "app_ok P a \<longleftrightarrow>
     0 < app_cols a \<and> 0 < app_rows a \<and> app_frames a = app_cols a * app_rows a \<and>
     0 \<le> app_frame a \<and> app_frame a < app_frames a \<and> app_anim_step_ms_eff a \<noteq> 0 \<and>
     app_rot a \<in> {0, 1, 2, 3} \<and> length (app_sheet_rot a) = 4 \<and>
     (\<forall>r < 4. surf_w (app_sheet_rot a ! r) = (if even r then app_tex_w a else app_tex_h a) \<and>
              surf_h (app_sheet_rot a ! r) = (if even r then app_tex_h a else app_tex_w a)) \<and>
     0 \<le> app_tex_w a \<and> 0 \<le> app_tex_h a \<and>
     app_cols a dvd app_tex_w a \<and> app_rows a dvd app_tex_h a \<and>
     app_fw a = app_tex_w a div app_cols a \<and> app_fh a = app_tex_h a div app_rows a \<and>
     app_fw a < 2 ^ 20 \<and> app_fh a < 2 ^ 20 \<and>
     app_screen_w a = surf_w (app_win a) \<and> app_screen_h a = surf_h (app_win a) \<and>
     app_screen_w a < 2 ^ 23 \<and> app_screen_h a < 2 ^ 23 \<and>
     (\<exists>t::int. 1 \<le> t \<and> t \<le> 12 \<and> app_scale a = of_int t / 2) \<and>
     fst (draw_size_for_rot P a (app_rot a)) \<le> app_screen_w a \<and>
     snd (draw_size_for_rot P a (app_rot a)) \<le> app_screen_h a \<and>
     (app_is565 a \<longrightarrow>
        bpp2 P (app_win a) \<and> surface_ok P (app_win a) \<and>
        (\<forall>r < 4. bpp2 P (app_sheet_rot a ! r) \<and> surface_ok P (app_sheet_rot a ! r)))"

section \<open>Memory and loops\<close>

lemma store_bytes_Inr:
  "store_bytes buf off bs = Inr buf' \<Longrightarrow> in_range buf off (int (length bs)) \<and> length buf' = length buf"
  by (auto simp: store_bytes_def in_range_def split: if_splits)

lemma store_bytes_ok:
  "in_range buf off (int (length bs)) \<Longrightarrow> \<exists>buf'. store_bytes buf off bs = Inr buf'"
  by (simp add: store_bytes_def)

lemma store_bytes_nth:
  assumes "store_bytes buf off bs = Inr buf'" "i < length buf"
  shows "buf' ! i = (if nat off \<le> i \<and> i < nat off + length bs then bs ! (i - nat off) else buf ! i)"
  using assms
  by (auto simp: store_bytes_def in_range_def nth_append split: if_splits)

lemma load_bytes_cong:
  assumes "length buf' = length buf"
    and "\<And>i. nat off \<le> i \<Longrightarrow> i < nat off + nat n \<Longrightarrow> i < length buf \<Longrightarrow> buf' ! i = buf ! i"
  shows "load_bytes buf' off n = load_bytes buf off n"
proof (cases "in_range buf off n")
  case True
  then have r: "in_range buf' off n" using assms(1) by (simp add: in_range_def)
  have "take (nat n) (drop (nat off) buf') = take (nat n) (drop (nat off) buf)"
  proof (rule nth_equalityI)
    show "length (take (nat n) (drop (nat off) buf')) = length (take (nat n) (drop (nat off) buf))"
      using assms(1) by simp
  next
    fix i assume "i < length (take (nat n) (drop (nat off) buf'))"
    then have i: "i < nat n" "nat off + i < length buf" using assms(1) by auto
    then show "take (nat n) (drop (nat off) buf') ! i = take (nat n) (drop (nat off) buf) ! i"
      using assms by (simp add: add.commute)
  qed
  with True r show ?thesis by (simp add: load_bytes_def)
next
  case False
  then have "\<not> in_range buf' off n" using assms(1) by (simp add: in_range_def)
  with False show ?thesis by (simp add: load_bytes_def)
qed

lemma load_store_same:
  assumes "store_bytes buf off bs = Inr buf'"
  shows "load_bytes buf' off (int (length bs)) = Inr bs"
  using assms
  by (auto simp: store_bytes_def load_bytes_def in_range_def split: if_splits)

lemma for_up_rule:
  assumes "I lo s"
    and "\<And>i s. lo \<le> i \<Longrightarrow> i < hi \<Longrightarrow> I i s \<Longrightarrow> \<exists>s'. body i s = Inr s' \<and> I (i + 1) s'"
  shows "\<exists>s'. for_up lo hi body s = Inr s' \<and> I (max lo hi) s'"
  using assms
proof (induction lo hi body s rule: for_up.induct)
  case (1 i hi body s)
  show ?case
  proof (cases "i < hi")
    case False
    with 1(2) show ?thesis by (simp add: for_up.simps max_def)
  next
    case True
    from 1(3)[OF _ True 1(2)] obtain s' where s': "body i s = Inr s'" "I (i + 1) s'" by auto
    have "\<exists>s''. for_up (i + 1) hi body s' = Inr s'' \<and> I (max (i + 1) hi) s''"
      by (rule 1(1)[OF True s'(1) s'(2)]) (use 1(3) in auto)
    with True s' show ?thesis by (simp add: for_up.simps[of i] max_def)
  qed
qed

lemma for_up2_rule:
  assumes "I lo s"
    and "\<And>i s. lo \<le> i \<Longrightarrow> i < hi \<Longrightarrow> I i s \<Longrightarrow> \<exists>s'. body i s = Inr s' \<and> I (i + 2) s'"
  shows "\<exists>s'. for_up2 lo hi body s = Inr s' \<and> I (lo + 2 * max 0 ((hi - lo + 1) div 2)) s'"
  using assms
proof (induction lo hi body s rule: for_up2.induct)
  case (1 i hi body s)
  show ?case
  proof (cases "i < hi")
    case False
    then have "max 0 ((hi - i + 1) div 2) = 0" by simp
    with False 1(2) show ?thesis by (simp add: for_up2.simps)
  next
    case True
    from 1(3)[OF _ True 1(2)] obtain s' where s': "body i s = Inr s'" "I (i + 2) s'" by auto
    have "\<exists>s''. for_up2 (i + 2) hi body s' = Inr s'' \<and> I (i + 2 + 2 * max 0 ((hi - (i + 2) + 1) div 2)) s''"
      by (rule 1(1)[OF True s'(1) s'(2)]) (use 1(3) in auto)
    then obtain s'' where s'': "for_up2 (i + 2) hi body s' = Inr s''"
      "I (i + 2 + 2 * max 0 ((hi - (i + 2) + 1) div 2)) s''" by blast
    have eq: "i + 2 + 2 * max 0 ((hi - (i + 2) + 1) div 2) = i + 2 * max 0 ((hi - i + 1) div 2)"
      using True by (simp add: max_def) presburger
    have "I (i + 2 * max 0 ((hi - i + 1) div 2)) s''"
      using s''(2) by (simp only: eq)
    moreover have "for_up2 i hi body s = Inr s''"
      using True s'(1) s''(1) by (simp add: for_up2.simps[of i])
    ultimately show ?thesis by blast
  qed
qed

lemma cell_bounds:
  assumes "0 \<le> (B::int)" "W * B \<le> P" "0 \<le> X" "X < W" "0 \<le> Y" "Y < H"
  shows "0 \<le> Y * P + X * B" and "Y * P + X * B + B \<le> H * P"
proof -
  have P0: "0 \<le> P"
  proof -
    have "0 \<le> W * B" using assms by simp
    with assms(2) show ?thesis by linarith
  qed
  have a: "0 \<le> Y * P" using assms P0 by simp
  have b: "0 \<le> X * B" using assms by simp
  from a b show "0 \<le> Y * P + X * B" by linarith
  have "(X + 1) * B \<le> W * B" using assms by (intro mult_right_mono) auto
  then have c: "X * B + B \<le> P" using assms(2) by (simp add: algebra_simps)
  have "(Y + 1) * P \<le> H * P" using assms P0 by (intro mult_right_mono) auto
  then have d: "Y * P + P \<le> H * P" by (simp add: algebra_simps)
  from c d show "Y * P + X * B + B \<le> H * P" by linarith
qed

lemma cell_disjoint:
  assumes "0 \<le> (B::int)" "W * B \<le> P" "0 \<le> X" "X < W" "0 \<le> Y" "0 \<le> X'" "X' < W" "0 \<le> Y'"
    and "X \<noteq> X' \<or> Y \<noteq> Y'"
  shows "Y * P + X * B + B \<le> Y' * P + X' * B \<or> Y' * P + X' * B + B \<le> Y * P + X * B"
proof -
  have row: "\<And>x x' y y'. 0 \<le> x \<Longrightarrow> x < W \<Longrightarrow> 0 \<le> x' \<Longrightarrow> y < y' \<Longrightarrow>
      y * P + x * B + B \<le> y' * P + x' * B"
  proof -
    fix x x' y y' :: int
    assume h: "0 \<le> x" "x < W" "0 \<le> x'" "y < y'"
    have P0: "0 \<le> P"
    proof -
      have "0 \<le> W * B" using assms h by simp
      with assms(2) show ?thesis by linarith
    qed
    have "(x + 1) * B \<le> W * B" using assms h by (intro mult_right_mono) auto
    then have c: "x * B + B \<le> P" using assms(2) by (simp add: algebra_simps)
    have "(y + 1) * P \<le> y' * P" using h P0 by (intro mult_right_mono) auto
    then have d: "y * P + P \<le> y' * P" by (simp add: algebra_simps)
    have e: "0 \<le> x' * B" using assms h by simp
    from c d e show "y * P + x * B + B \<le> y' * P + x' * B" by linarith
  qed
  have col: "\<And>x x'. x < x' \<Longrightarrow> x * B + B \<le> x' * B"
  proof -
    fix x x' :: int
    assume "x < x'"
    then have "(x + 1) * B \<le> x' * B" using assms(1) by (intro mult_right_mono) auto
    then show "x * B + B \<le> x' * B" by (simp add: algebra_simps)
  qed
  consider "Y < Y'" | "Y' < Y" | "Y = Y'" "X < X'" | "Y = Y'" "X' < X"
    using assms(9) by linarith
  then show ?thesis
  proof cases
    case 1 then show ?thesis using row[of X X' Y Y'] assms by simp
  next
    case 2 then show ?thesis using row[of X' X Y' Y] assms by simp
  next
    case 3 then show ?thesis using col[of X X'] by simp
  next
    case 4 then show ?thesis using col[of X' X] by simp
  qed
qed

lemma load_store_other:
  assumes "store_bytes buf off bs = Inr buf'"
    and "off' + n \<le> off \<or> off + int (length bs) \<le> off'"
  shows "load_bytes buf' off' n = load_bytes buf off' n"
proof (cases "in_range buf off' n")
  case False
  moreover have "length buf' = length buf" using assms(1) by (simp add: store_bytes_Inr)
  ultimately have "\<not> in_range buf' off' n" by (simp add: in_range_def)
  with False show ?thesis by (simp add: load_bytes_def)
next
  case True
  have len: "length buf' = length buf" using assms(1) by (simp add: store_bytes_Inr)
  have rng: "in_range buf off (int (length bs))" using assms(1) by (simp add: store_bytes_Inr)
  show ?thesis
  proof (rule load_bytes_cong[OF len])
    fix i assume i: "nat off' \<le> i" "i < nat off' + nat n" "i < length buf"
    have "\<not> (nat off \<le> i \<and> i < nat off + length bs)"
      using i assms(2) True rng by (auto simp: in_range_def)
    then show "buf' ! i = buf ! i"
      using store_bytes_nth[OF assms(1) i(3)] by auto
  qed
qed

lemma store_cell:
  assumes g: "grid_ok B W H P buf" and c: "0 \<le> X0" "X0 < W" "0 \<le> Y0" "Y0 < H"
    and l: "int (length bs) = B"
  shows "\<exists>buf'. store_bytes buf (Y0 * P + X0 * B) bs = Inr buf' \<and> grid_ok B W H P buf' \<and>
           (\<forall>X Y. 0 \<le> X \<and> X < W \<and> 0 \<le> Y \<and> Y < H \<longrightarrow>
              load_bytes buf' (Y * P + X * B) B =
                (if X = X0 \<and> Y = Y0 then Inr bs else load_bytes buf (Y * P + X * B) B))"
proof -
  from g have B0: "0 \<le> B" and WP: "W * B \<le> P" and HP: "H * P \<le> int (length buf)"
    by (simp_all add: grid_ok_def)
  have "in_range buf (Y0 * P + X0 * B) (int (length bs))"
    using cell_bounds[OF B0 WP c] HP l by (simp add: in_range_def)
  then obtain buf' where s: "store_bytes buf (Y0 * P + X0 * B) bs = Inr buf'"
    using store_bytes_ok by blast
  have len: "length buf' = length buf" using s by (simp add: store_bytes_Inr)
  have "load_bytes buf' (Y * P + X * B) B =
          (if X = X0 \<and> Y = Y0 then Inr bs else load_bytes buf (Y * P + X * B) B)"
    if h: "0 \<le> X \<and> X < W \<and> 0 \<le> Y \<and> Y < H" for X Y
  proof (cases "X = X0 \<and> Y = Y0")
    case True
    then show ?thesis using load_store_same[OF s] l by simp
  next
    case False
    have "Y * P + X * B + B \<le> Y0 * P + X0 * B \<or> Y0 * P + X0 * B + B \<le> Y * P + X * B"
      using cell_disjoint[OF B0 WP, of X Y X0 Y0] h c False by blast
    then show ?thesis using load_store_other[OF s, of "Y * P + X * B" B] l False by auto
  qed
  with s len g show ?thesis by (auto simp: grid_ok_def)
qed

lemma load_bytes_ok:
  "in_range buf off n \<Longrightarrow> \<exists>bs. load_bytes buf off n = Inr bs \<and> int (length bs) = n"
  by (auto simp: load_bytes_def in_range_def)

lemma grid_cell_in_range:
  assumes "grid_ok B W H P buf" "0 \<le> X" "X < W" "0 \<le> Y" "Y < H"
  shows "in_range buf (Y * P + X * B) B"
proof -
  from assms(1) have B0: "0 \<le> B" and WP: "W * B \<le> P" and HP: "H * P \<le> int (length buf)"
    by (simp_all add: grid_ok_def)
  show ?thesis using cell_bounds[OF B0 WP assms(2-5)] HP B0 by (simp add: in_range_def)
qed

section \<open>Rotation: C7 and C6\<close>

lemma rotate90_cw_row_correct:
  assumes sg: "grid_ok bpp sw sh (surf_pitch src) (surf_pixels src)"
    and dg: "grid_ok bpp sh sw dpitch dp0"
    and y: "0 \<le> y" "y < sh"
  shows "\<exists>dp. rotate90_cw_row src sw sh bpp dpitch y dp0 = Inr dp \<and> grid_ok bpp sh sw dpitch dp \<and>
           (\<forall>X Y. 0 \<le> X \<and> X < sh \<and> 0 \<le> Y \<and> Y < sw \<longrightarrow>
              load_bytes dp (Y * dpitch + X * bpp) bpp =
                (if X = sh - 1 - y then load_bytes (surf_pixels src) (y * surf_pitch src + Y * bpp) bpp
                 else load_bytes dp0 (Y * dpitch + X * bpp) bpp))"
proof -
  define I where "I = (\<lambda>x dp. grid_ok bpp sh sw dpitch dp \<and>
           (\<forall>X Y. 0 \<le> X \<and> X < sh \<and> 0 \<le> Y \<and> Y < sw \<longrightarrow>
              load_bytes dp (Y * dpitch + X * bpp) bpp =
                (if X = sh - 1 - y \<and> Y < x then load_bytes (surf_pixels src) (y * surf_pitch src + Y * bpp) bpp
                 else load_bytes dp0 (Y * dpitch + X * bpp) bpp)))"
  have sw0: "0 \<le> sw" using sg by (simp add: grid_ok_def)
  have init: "I 0 dp0" using dg by (simp add: I_def)
  have step: "\<exists>dp'. rotate90_cw_px src sh bpp dpitch y x dp = Inr dp' \<and> I (x + 1) dp'"
    if x: "0 \<le> x" "x < sw" and inv: "I x dp" for x dp
  proof -
    from inv have g: "grid_ok bpp sh sw dpitch dp" by (simp add: I_def)
    obtain bs where bs: "load_bytes (surf_pixels src) (y * surf_pitch src + x * bpp) bpp = Inr bs"
      "int (length bs) = bpp"
      using load_bytes_ok[OF grid_cell_in_range[OF sg x y]] by blast
    have c: "0 \<le> sh - 1 - y" "sh - 1 - y < sh" using y by auto
    obtain dp' where dp': "store_bytes dp (x * dpitch + (sh - 1 - y) * bpp) bs = Inr dp'"
      "grid_ok bpp sh sw dpitch dp'"
      "\<forall>X Y. 0 \<le> X \<and> X < sh \<and> 0 \<le> Y \<and> Y < sw \<longrightarrow>
              load_bytes dp' (Y * dpitch + X * bpp) bpp =
                (if X = sh - 1 - y \<and> Y = x then Inr bs else load_bytes dp (Y * dpitch + X * bpp) bpp)"
      using store_cell[OF g c x bs(2)] by blast
    have "rotate90_cw_px src sh bpp dpitch y x dp = Inr dp'"
      using bs(1) dp'(1) by (simp add: rotate90_cw_px_def memcpy_def)
    moreover have "I (x + 1) dp'"
      unfolding I_def
    proof (intro conjI allI impI)
      show "grid_ok bpp sh sw dpitch dp'" by (rule dp'(2))
    next
      fix X Y assume h: "0 \<le> X \<and> X < sh \<and> 0 \<le> Y \<and> Y < sw"
      have a: "load_bytes dp' (Y * dpitch + X * bpp) bpp =
                (if X = sh - 1 - y \<and> Y = x then Inr bs else load_bytes dp (Y * dpitch + X * bpp) bpp)"
        using dp'(3) h by blast
      have b: "load_bytes dp (Y * dpitch + X * bpp) bpp =
                (if X = sh - 1 - y \<and> Y < x then load_bytes (surf_pixels src) (y * surf_pitch src + Y * bpp) bpp
                 else load_bytes dp0 (Y * dpitch + X * bpp) bpp)"
        using inv h unfolding I_def by blast
      show "load_bytes dp' (Y * dpitch + X * bpp) bpp =
                (if X = sh - 1 - y \<and> Y < x + 1 then load_bytes (surf_pixels src) (y * surf_pitch src + Y * bpp) bpp
                 else load_bytes dp0 (Y * dpitch + X * bpp) bpp)"
        using a b bs(1) by (cases "Y = x") auto
    qed
    ultimately show ?thesis by blast
  qed
  obtain dp where dp: "for_up 0 sw (rotate90_cw_px src sh bpp dpitch y) dp0 = Inr dp" "I (max 0 sw) dp"
    using for_up_rule[of I 0 dp0 sw "rotate90_cw_px src sh bpp dpitch y", OF init step] by blast
  have m: "max 0 sw = sw" using sw0 by simp
  show ?thesis
    using dp unfolding m I_def rotate90_cw_row_def by (intro exI[of _ dp]) auto
qed

lemma rotate90_cw_loops_correct:
  assumes sg: "grid_ok bpp sw sh (surf_pitch src) (surf_pixels src)"
    and dg: "grid_ok bpp sh sw dpitch dp0"
  shows "\<exists>dp. for_up 0 sh (rotate90_cw_row src sw sh bpp dpitch) dp0 = Inr dp \<and>
           grid_ok bpp sh sw dpitch dp \<and>
           (\<forall>X Y. 0 \<le> X \<and> X < sh \<and> 0 \<le> Y \<and> Y < sw \<longrightarrow>
              load_bytes dp (Y * dpitch + X * bpp) bpp =
                load_bytes (surf_pixels src) ((sh - 1 - X) * surf_pitch src + Y * bpp) bpp)"
proof -
  define I where "I = (\<lambda>y dp. grid_ok bpp sh sw dpitch dp \<and>
           (\<forall>X Y. 0 \<le> X \<and> X < sh \<and> 0 \<le> Y \<and> Y < sw \<longrightarrow>
              load_bytes dp (Y * dpitch + X * bpp) bpp =
                (if sh - 1 - X < y
                 then load_bytes (surf_pixels src) ((sh - 1 - X) * surf_pitch src + Y * bpp) bpp
                 else load_bytes dp0 (Y * dpitch + X * bpp) bpp)))"
  have sh0: "0 \<le> sh" using sg by (simp add: grid_ok_def)
  have init: "I 0 dp0" using dg by (simp add: I_def)
  have step: "\<exists>dp'. rotate90_cw_row src sw sh bpp dpitch y dp = Inr dp' \<and> I (y + 1) dp'"
    if y: "0 \<le> y" "y < sh" and inv: "I y dp" for y dp
  proof -
    from inv have g: "grid_ok bpp sh sw dpitch dp" by (simp add: I_def)
    obtain dp' where dp': "rotate90_cw_row src sw sh bpp dpitch y dp = Inr dp'"
      "grid_ok bpp sh sw dpitch dp'"
      "\<forall>X Y. 0 \<le> X \<and> X < sh \<and> 0 \<le> Y \<and> Y < sw \<longrightarrow>
              load_bytes dp' (Y * dpitch + X * bpp) bpp =
                (if X = sh - 1 - y then load_bytes (surf_pixels src) (y * surf_pitch src + Y * bpp) bpp
                 else load_bytes dp (Y * dpitch + X * bpp) bpp)"
      using rotate90_cw_row_correct[OF sg g y] by blast
    have "I (y + 1) dp'"
      unfolding I_def
    proof (intro conjI allI impI)
      show "grid_ok bpp sh sw dpitch dp'" by (rule dp'(2))
    next
      fix X Y assume h: "0 \<le> X \<and> X < sh \<and> 0 \<le> Y \<and> Y < sw"
      have a: "load_bytes dp' (Y * dpitch + X * bpp) bpp =
                (if X = sh - 1 - y then load_bytes (surf_pixels src) (y * surf_pitch src + Y * bpp) bpp
                 else load_bytes dp (Y * dpitch + X * bpp) bpp)"
        using dp'(3) h by blast
      have b: "load_bytes dp (Y * dpitch + X * bpp) bpp =
                (if sh - 1 - X < y
                 then load_bytes (surf_pixels src) ((sh - 1 - X) * surf_pitch src + Y * bpp) bpp
                 else load_bytes dp0 (Y * dpitch + X * bpp) bpp)"
        using inv h unfolding I_def by blast
      show "load_bytes dp' (Y * dpitch + X * bpp) bpp =
                (if sh - 1 - X < y + 1
                 then load_bytes (surf_pixels src) ((sh - 1 - X) * surf_pitch src + Y * bpp) bpp
                 else load_bytes dp0 (Y * dpitch + X * bpp) bpp)"
      proof (cases "X = sh - 1 - y")
        case True
        show ?thesis unfolding True using a[unfolded True] by simp
      next
        case False
        then have "(sh - 1 - X < y + 1) = (sh - 1 - X < y)" by auto
        with a b False show ?thesis by simp
      qed
    qed
    with dp'(1) show ?thesis by blast
  qed
  obtain dp where dp: "for_up 0 sh (rotate90_cw_row src sw sh bpp dpitch) dp0 = Inr dp" "I (max 0 sh) dp"
    using for_up_rule[of I 0 dp0 sh "rotate90_cw_row src sw sh bpp dpitch", OF init step] by blast
  have m: "max 0 sh = sh" using sh0 by simp
  have "grid_ok bpp sh sw dpitch dp" using dp(2) unfolding m I_def by blast
  moreover have "load_bytes dp (Y * dpitch + X * bpp) bpp =
                load_bytes (surf_pixels src) ((sh - 1 - X) * surf_pitch src + Y * bpp) bpp"
    if h: "0 \<le> X \<and> X < sh \<and> 0 \<le> Y \<and> Y < sw" for X Y
  proof -
    have "sh - 1 - X < sh" using h by simp
    then show ?thesis using dp(2) h unfolding m I_def by simp
  qed
  ultimately show ?thesis using dp(1) by blast
qed

lemma rotate90_cw_correct:
  assumes c: "create_ok P" and s: "surface_ok P src"
    and d0: "SDL_CreateSurface P (surf_h src) (surf_w src) (surf_format src) = Some d0"
    and l: "\<not> SDL_LockSurface P src < 0" "\<not> SDL_LockSurface P d0 < 0"
  shows "\<exists>dst. rotate90_cw P src = Inr (Some dst) \<and>
           surf_format dst = surf_format src \<and> surf_w dst = surf_h src \<and> surf_h dst = surf_w src \<and>
           surface_ok P dst \<and>
           (\<forall>x y. 0 \<le> x \<and> x < surf_w src \<and> 0 \<le> y \<and> y < surf_h src \<longrightarrow>
              pixel_at P dst (surf_h src - 1 - y) x = pixel_at P src x y)"
proof -
  from c d0 have d: "surf_format d0 = surf_format src" "surf_w d0 = surf_h src"
    "surf_h d0 = surf_w src" "surface_ok P d0"
    unfolding create_ok_def by blast+
  have bpp: "surface_bpp P d0 = surface_bpp P src" using d(1) by (simp add: surface_bpp_def)
  have sg: "grid_ok (surface_bpp P src) (surf_w src) (surf_h src) (surf_pitch src) (surf_pixels src)"
    using s by (simp add: surface_ok_def)
  have dg: "grid_ok (surface_bpp P src) (surf_h src) (surf_w src) (surf_pitch d0) (surf_pixels d0)"
    using d(2-4) bpp by (simp add: surface_ok_def)
  obtain dp where dp:
    "for_up 0 (surf_h src) (rotate90_cw_row src (surf_w src) (surf_h src) (surface_bpp P src) (surf_pitch d0))
       (surf_pixels d0) = Inr dp"
    "grid_ok (surface_bpp P src) (surf_h src) (surf_w src) (surf_pitch d0) dp"
    "\<forall>X Y. 0 \<le> X \<and> X < surf_h src \<and> 0 \<le> Y \<and> Y < surf_w src \<longrightarrow>
       load_bytes dp (Y * surf_pitch d0 + X * surface_bpp P src) (surface_bpp P src) =
       load_bytes (surf_pixels src) ((surf_h src - 1 - X) * surf_pitch src + Y * surface_bpp P src)
         (surface_bpp P src)"
    using rotate90_cw_loops_correct[OF sg dg] by blast
  let ?dst = "d0\<lparr>surf_pixels := dp\<rparr>"
  have r: "rotate90_cw P src = Inr (Some ?dst)"
    using d0 l dp(1) by (simp add: rotate90_cw_def Let_def)
  have bpp': "surface_bpp P ?dst = surface_bpp P src" using d(1) by (simp add: surface_bpp_def)
  have ok: "surface_ok P ?dst"
    using dp(2) d(2,3) bpp' by (simp add: surface_ok_def)
  have px: "pixel_at P ?dst (surf_h src - 1 - y) x = pixel_at P src x y"
    if h: "0 \<le> x \<and> x < surf_w src \<and> 0 \<le> y \<and> y < surf_h src" for x y
  proof -
    have "0 \<le> surf_h src - 1 - y \<and> surf_h src - 1 - y < surf_h src \<and> 0 \<le> x \<and> x < surf_w src"
      using h by auto
    from dp(3)[rule_format, OF this] show ?thesis
      by (simp add: pixel_at_def bpp')
  qed
  show ?thesis
    using r ok px d by (intro exI[of _ ?dst]) simp
qed

lemma pixel_at_ok:
  assumes "surface_ok P s" "0 \<le> x" "x < surf_w s" "0 \<le> y" "y < surf_h s"
  shows "\<exists>px. pixel_at P s x y = Inr px"
  using load_bytes_ok[OF grid_cell_in_range[OF assms(1)[unfolded surface_ok_def] assms(2-5)]]
  by (auto simp: pixel_at_def)

lemma packed_platform_create_ok: "create_ok packed_platform"
  by (auto simp: create_ok_def packed_platform_def surface_ok_def surface_bpp_def grid_ok_def
      split: if_splits)

lemma two_pixels_ok: "surface_ok packed_platform two_pixels"
  by (simp add: packed_platform_def surface_ok_def surface_bpp_def grid_ok_def two_pixels_def)

text \<open>
  C7: on a well-formed source of width \<open>sw\<close> and height \<open>sh\<close>, when \<open>SDL_CreateSurface\<close> and the
  two locks succeed, \<open>rotate90_cw\<close> returns a new surface of width \<open>sh\<close> and height \<open>sw\<close> in which
  the pixel in column \<open>new_width - 1 - y\<close> of row \<open>x\<close> holds the bytes of the source pixel
  \<open>(x, y)\<close>, for every source coordinate.
\<close>

theorem rotate90_cw_quarter_turn:
  assumes "create_ok P" and "surface_ok P src"
    and "SDL_CreateSurface P (surf_h src) (surf_w src) (surf_format src) = Some d0"
    and "\<not> SDL_LockSurface P src < 0" and "\<not> SDL_LockSurface P d0 < 0"
  shows "\<exists>dst. rotate90_cw P src = Inr (Some dst) \<and>
           surf_w dst = surf_h src \<and> surf_h dst = surf_w src \<and>
           (\<forall>x y. 0 \<le> x \<and> x < surf_w src \<and> 0 \<le> y \<and> y < surf_h src \<longrightarrow>
              (\<exists>px. pixel_at P src x y = Inr px \<and> pixel_at P dst (surf_w dst - 1 - y) x = Inr px))"
proof -
  obtain dst where dst: "rotate90_cw P src = Inr (Some dst)"
    "surf_w dst = surf_h src" "surf_h dst = surf_w src"
    "\<forall>x y. 0 \<le> x \<and> x < surf_w src \<and> 0 \<le> y \<and> y < surf_h src \<longrightarrow>
              pixel_at P dst (surf_h src - 1 - y) x = pixel_at P src x y"
    using rotate90_cw_correct[OF assms] by blast
  have "\<exists>px. pixel_at P src x y = Inr px \<and> pixel_at P dst (surf_w dst - 1 - y) x = Inr px"
    if h: "0 \<le> x \<and> x < surf_w src \<and> 0 \<le> y \<and> y < surf_h src" for x y
  proof -
    obtain px where px: "pixel_at P src x y = Inr px"
      using pixel_at_ok[OF assms(2)] h by blast
    moreover have "pixel_at P dst (surf_h src - 1 - y) x = pixel_at P src x y"
      using dst(4) h by blast
    ultimately show ?thesis using dst(2) by simp
  qed
  with dst(1-3) show ?thesis by blast
qed

theorem rotate90_cw_quarter_turn_witness:
  "\<exists>dst. rotate90_cw packed_platform two_pixels = Inr (Some dst) \<and>
     surf_w dst = 1 \<and> surf_h dst = 2 \<and>
     pixel_at packed_platform dst 0 0 = Inr [1, 2] \<and> pixel_at packed_platform dst 0 1 = Inr [3, 4]"
proof -
  have c: "SDL_CreateSurface packed_platform (surf_h two_pixels) (surf_w two_pixels)
             (surf_format two_pixels)
           = Some \<lparr>surf_format = 0, surf_w = 1, surf_h = 2, surf_pitch = 2,
                    surf_pixels = replicate 4 0, surf_colorkey = None\<rparr>"
    by (simp add: packed_platform_def two_pixels_def)
  have l: "\<not> SDL_LockSurface packed_platform s < 0" for s
    by (simp add: packed_platform_def)
  obtain dst where dst: "rotate90_cw packed_platform two_pixels = Inr (Some dst)"
    "surf_w dst = surf_h two_pixels" "surf_h dst = surf_w two_pixels"
    "\<forall>x y. 0 \<le> x \<and> x < surf_w two_pixels \<and> 0 \<le> y \<and> y < surf_h two_pixels \<longrightarrow>
       (\<exists>px. pixel_at packed_platform two_pixels x y = Inr px \<and>
             pixel_at packed_platform dst (surf_w dst - 1 - y) x = Inr px)"
    using rotate90_cw_quarter_turn[OF packed_platform_create_ok two_pixels_ok c l l] by blast
  have p0: "pixel_at packed_platform two_pixels 0 0 = Inr [1, 2]"
    and p1: "pixel_at packed_platform two_pixels 1 0 = Inr [3, 4]"
    by (simp_all add: pixel_at_def packed_platform_def surface_bpp_def two_pixels_def
        load_bytes_def in_range_def)
  have w: "surf_w dst = 1" "surf_h dst = 2" using dst(2,3) by (simp_all add: two_pixels_def)
  have "pixel_at packed_platform dst 0 0 = Inr [1, 2]"
    using dst(4)[rule_format, of 0 0] p0 w by (simp add: two_pixels_def)
  moreover have "pixel_at packed_platform dst 0 1 = Inr [3, 4]"
    using dst(4)[rule_format, of 1 0] p1 w by (simp add: two_pixels_def)
  ultimately show ?thesis using dst(1) w by blast
qed

text \<open>
  C6: applying \<open>rotate90_cw\<close> four times in sequence (each application succeeding) yields a
  surface with the width and height of the original and the same bytes in every pixel; each
  single application swaps width and height.
\<close>

theorem rotate90_cw_four_times:
  assumes c: "create_ok P" and s: "surface_ok P src"
    and l: "\<forall>s. \<not> SDL_LockSurface P s < 0"
    and a1: "SDL_CreateSurface P (surf_h src) (surf_w src) (surf_format src) \<noteq> None"
    and a2: "SDL_CreateSurface P (surf_w src) (surf_h src) (surf_format src) \<noteq> None"
  shows "\<exists>r1 r2 r3 r4.
           rotate90_cw P src = Inr (Some r1) \<and> rotate90_cw P r1 = Inr (Some r2) \<and>
           rotate90_cw P r2 = Inr (Some r3) \<and> rotate90_cw P r3 = Inr (Some r4) \<and>
           surf_w r1 = surf_h src \<and> surf_h r1 = surf_w src \<and>
           surf_w r2 = surf_w src \<and> surf_h r2 = surf_h src \<and>
           surf_w r3 = surf_h src \<and> surf_h r3 = surf_w src \<and>
           surf_w r4 = surf_w src \<and> surf_h r4 = surf_h src \<and>
           (\<forall>x y. 0 \<le> x \<and> x < surf_w src \<and> 0 \<le> y \<and> y < surf_h src \<longrightarrow>
              (\<exists>px. pixel_at P src x y = Inr px \<and> pixel_at P r4 x y = Inr px))"
proof -
  let ?w = "surf_w src" and ?h = "surf_h src"
  from a1 obtain d1 where d1: "SDL_CreateSurface P ?h ?w (surf_format src) = Some d1" by blast
  obtain r1 where r1: "rotate90_cw P src = Inr (Some r1)" "surf_format r1 = surf_format src"
    "surf_w r1 = ?h" "surf_h r1 = ?w" "surface_ok P r1"
    "\<forall>x y. 0 \<le> x \<and> x < ?w \<and> 0 \<le> y \<and> y < ?h \<longrightarrow>
       pixel_at P r1 (?h - 1 - y) x = pixel_at P src x y"
    using rotate90_cw_correct[OF c s d1] l by blast
  from a2 obtain d2 where d2: "SDL_CreateSurface P (surf_h r1) (surf_w r1) (surf_format r1) = Some d2"
    using r1(2-4) by auto
  obtain r2 where r2: "rotate90_cw P r1 = Inr (Some r2)" "surf_format r2 = surf_format r1"
    "surf_w r2 = surf_h r1" "surf_h r2 = surf_w r1" "surface_ok P r2"
    "\<forall>x y. 0 \<le> x \<and> x < surf_w r1 \<and> 0 \<le> y \<and> y < surf_h r1 \<longrightarrow>
       pixel_at P r2 (surf_h r1 - 1 - y) x = pixel_at P r1 x y"
    using rotate90_cw_correct[OF c r1(5) d2] l by blast
  from a1 obtain d3 where d3: "SDL_CreateSurface P (surf_h r2) (surf_w r2) (surf_format r2) = Some d3"
    using r1(2-4) r2(2-4) by auto
  obtain r3 where r3: "rotate90_cw P r2 = Inr (Some r3)" "surf_format r3 = surf_format r2"
    "surf_w r3 = surf_h r2" "surf_h r3 = surf_w r2" "surface_ok P r3"
    "\<forall>x y. 0 \<le> x \<and> x < surf_w r2 \<and> 0 \<le> y \<and> y < surf_h r2 \<longrightarrow>
       pixel_at P r3 (surf_h r2 - 1 - y) x = pixel_at P r2 x y"
    using rotate90_cw_correct[OF c r2(5) d3] l by blast
  from a2 obtain d4 where d4: "SDL_CreateSurface P (surf_h r3) (surf_w r3) (surf_format r3) = Some d4"
    using r1(2-4) r2(2-4) r3(2-4) by auto
  obtain r4 where r4: "rotate90_cw P r3 = Inr (Some r4)" "surf_format r4 = surf_format r3"
    "surf_w r4 = surf_h r3" "surf_h r4 = surf_w r3" "surface_ok P r4"
    "\<forall>x y. 0 \<le> x \<and> x < surf_w r3 \<and> 0 \<le> y \<and> y < surf_h r3 \<longrightarrow>
       pixel_at P r4 (surf_h r3 - 1 - y) x = pixel_at P r3 x y"
    using rotate90_cw_correct[OF c r3(5) d4] l by blast
  have dims: "surf_w r2 = ?w" "surf_h r2 = ?h" "surf_w r3 = ?h" "surf_h r3 = ?w"
    "surf_w r4 = ?w" "surf_h r4 = ?h"
    using r1(3,4) r2(3,4) r3(3,4) r4(3,4) by simp_all
  have px: "\<exists>px. pixel_at P src x y = Inr px \<and> pixel_at P r4 x y = Inr px"
    if h: "0 \<le> x \<and> x < ?w \<and> 0 \<le> y \<and> y < ?h" for x y
  proof -
    obtain px where px: "pixel_at P src x y = Inr px"
      using pixel_at_ok[OF s] h by blast
    have e1: "pixel_at P r1 (?h - 1 - y) x = pixel_at P src x y"
      using r1(6) h by blast
    have e2: "pixel_at P r2 (?w - 1 - x) (?h - 1 - y) = pixel_at P r1 (?h - 1 - y) x"
      using r2(6)[rule_format, of "?h - 1 - y" x] h r1(3,4) by simp
    have e3: "pixel_at P r3 y (?w - 1 - x) = pixel_at P r2 (?w - 1 - x) (?h - 1 - y)"
      using r3(6)[rule_format, of "?w - 1 - x" "?h - 1 - y"] h dims by simp
    have e4: "pixel_at P r4 x y = pixel_at P r3 y (?w - 1 - x)"
      using r4(6)[rule_format, of y "?w - 1 - x"] h dims by simp
    show ?thesis using px e1 e2 e3 e4 by simp
  qed
  show ?thesis
    using r1(1,3,4) r2(1) r3(1) r4(1) dims px by blast
qed

theorem rotate90_cw_four_times_witness:
  "\<exists>r1 r2 r3 r4.
     rotate90_cw packed_platform two_pixels = Inr (Some r1) \<and>
     rotate90_cw packed_platform r1 = Inr (Some r2) \<and>
     rotate90_cw packed_platform r2 = Inr (Some r3) \<and>
     rotate90_cw packed_platform r3 = Inr (Some r4) \<and>
     surf_w r4 = 2 \<and> surf_h r4 = 1 \<and>
     pixel_at packed_platform r4 0 0 = Inr [1, 2] \<and> pixel_at packed_platform r4 1 0 = Inr [3, 4]"
proof -
  have l: "\<forall>s. \<not> SDL_LockSurface packed_platform s < 0"
    by (simp add: packed_platform_def)
  have a1: "SDL_CreateSurface packed_platform (surf_h two_pixels) (surf_w two_pixels)
              (surf_format two_pixels) \<noteq> None"
    and a2: "SDL_CreateSurface packed_platform (surf_w two_pixels) (surf_h two_pixels)
              (surf_format two_pixels) \<noteq> None"
    by (simp_all add: packed_platform_def two_pixels_def)
  obtain r1 r2 r3 r4 where r:
    "rotate90_cw packed_platform two_pixels = Inr (Some r1)"
    "rotate90_cw packed_platform r1 = Inr (Some r2)"
    "rotate90_cw packed_platform r2 = Inr (Some r3)"
    "rotate90_cw packed_platform r3 = Inr (Some r4)"
    "surf_w r4 = surf_w two_pixels" "surf_h r4 = surf_h two_pixels"
    "\<forall>x y. 0 \<le> x \<and> x < surf_w two_pixels \<and> 0 \<le> y \<and> y < surf_h two_pixels \<longrightarrow>
       (\<exists>px. pixel_at packed_platform two_pixels x y = Inr px \<and>
             pixel_at packed_platform r4 x y = Inr px)"
    using rotate90_cw_four_times[OF packed_platform_create_ok two_pixels_ok l a1 a2] by blast
  have p0: "pixel_at packed_platform two_pixels 0 0 = Inr [1, 2]"
    and p1: "pixel_at packed_platform two_pixels 1 0 = Inr [3, 4]"
    by (simp_all add: pixel_at_def packed_platform_def surface_bpp_def two_pixels_def
        load_bytes_def in_range_def)
  have "pixel_at packed_platform r4 0 0 = Inr [1, 2]"
    using r(7)[rule_format, of 0 0] p0 by (simp add: two_pixels_def)
  moreover have "pixel_at packed_platform r4 1 0 = Inr [3, 4]"
    using r(7)[rule_format, of 1 0] p1 by (simp add: two_pixels_def)
  moreover have "surf_w r4 = 2" "surf_h r4 = 1" using r(5,6) by (simp_all add: two_pixels_def)
  ultimately show ?thesis using r(1-4) by blast
qed

section \<open>Frame locator: C5\<close>

lemma sdiv_nonneg: "0 \<le> (k::int) \<Longrightarrow> 0 < l \<Longrightarrow> k sdiv l = k div l"
  by (cases "k = 0") (simp_all add: signed_divide_int_def)

lemma smod_nonneg: "0 \<le> (k::int) \<Longrightarrow> 0 < l \<Longrightarrow> k smod l = k mod l"
  by (cases "k = 0") (simp_all add: signed_modulo_int_def signed_divide_int_def)

lemma div_cell_bound:
  assumes "0 < (n::int)" "0 \<le> idx" "idx < n * m"
  shows "0 \<le> idx div n" "idx div n < m" "0 \<le> idx mod n" "idx mod n < n"
proof -
  show "0 \<le> idx div n" using assms by (simp add: pos_imp_zdiv_nonneg_iff)
  show "0 \<le> idx mod n" "idx mod n < n" using assms by simp_all
  show "idx div n < m"
  proof (rule ccontr)
    assume "\<not> idx div n < m"
    then have "m \<le> idx div n" by simp
    then have "n * m \<le> n * (idx div n)" using assms(1) by (intro mult_left_mono) auto
    also have "\<dots> \<le> idx" using mult_div_mod_eq[of n idx] pos_mod_sign[OF assms(1), of idx] by linarith
    finally show False using assms(3) by simp
  qed
qed

lemma cell_span:
  assumes "0 < (n::int)" "0 \<le> W" "0 \<le> c" "c < n"
  shows "0 \<le> c * (W div n)"
    and "c * (W div n) + W div n \<le> W"
    and "0 \<le> W div n"
    and "n \<le> W \<Longrightarrow> 0 < W div n"
proof -
  show f0: "0 \<le> W div n" using assms by (simp add: pos_imp_zdiv_nonneg_iff)
  show "0 \<le> c * (W div n)" using assms f0 by simp
  have "(c + 1) * (W div n) \<le> n * (W div n)" using assms f0 by (intro mult_right_mono) auto
  also have "\<dots> \<le> W" using mult_div_mod_eq[of n W] pos_mod_sign[OF assms(1), of W] by linarith
  finally show "c * (W div n) + W div n \<le> W" by (simp add: algebra_simps)
  show "0 < W div n" if "n \<le> W" using that assms(1) by (simp add: pos_imp_zdiv_pos_iff)
qed

lemma src_rect_1d_bounds:
  assumes "0 < (n::int)" "0 \<le> W" "0 \<le> c" "c < n"
  shows "0 \<le> fst (src_rect_1d W n c)" "0 \<le> snd (src_rect_1d W n c)"
    "fst (src_rect_1d W n c) + snd (src_rect_1d W n c) \<le> W"
    "n \<le> W \<Longrightarrow> 0 < snd (src_rect_1d W n c)"
    "c \<noteq> n - 1 \<Longrightarrow> src_rect_1d W n c = (c * (W div n), W div n)"
    "c = n - 1 \<Longrightarrow> src_rect_1d W n c = (c * (W div n), W - c * (W div n))"
proof -
  note cs = cell_span[OF assms]
  have sd: "W sdiv n = W div n" using assms by (simp add: sdiv_nonneg)
  have ne: "c \<noteq> n - 1 \<Longrightarrow> src_rect_1d W n c = (c * (W div n), W div n)"
    using cs(1-3) by (simp add: src_rect_1d_def sd Let_def)
  have eq: "c = n - 1 \<Longrightarrow> src_rect_1d W n c = (c * (W div n), W - c * (W div n))"
    using cs(1-3) by (simp add: src_rect_1d_def sd Let_def)
  show "c \<noteq> n - 1 \<Longrightarrow> src_rect_1d W n c = (c * (W div n), W div n)" by (rule ne)
  show "c = n - 1 \<Longrightarrow> src_rect_1d W n c = (c * (W div n), W - c * (W div n))" by (rule eq)
  show "0 \<le> fst (src_rect_1d W n c)" using ne eq cs by (cases "c = n - 1") simp_all
  show "0 \<le> snd (src_rect_1d W n c)" using ne eq cs by (cases "c = n - 1") simp_all
  show "fst (src_rect_1d W n c) + snd (src_rect_1d W n c) \<le> W"
    using ne eq cs by (cases "c = n - 1") simp_all
  show "0 < snd (src_rect_1d W n c)" if "n \<le> W"
    using ne eq cs(1-3) cs(4)[OF that] by (cases "c = n - 1") simp_all
qed

lemma get_src_for_frame_rot_1d:
  assumes "sheet_rot_at a rot = Inr sheet"
    and "grid_for_rot a rot = (cols_r, rows_r, fw_r, fh_r)"
    and "cols_r \<noteq> 0" "rows_r \<noteq> 0" "app_cols a \<noteq> 0"
    and "map_cell_for_rot a rot (idx sdiv app_cols a) (idx smod app_cols a) = (rr, cc)"
  shows "get_src_for_frame_rot a idx rot =
           Inr \<lparr>rect_x = fst (src_rect_1d (surf_w sheet) cols_r cc),
                rect_y = fst (src_rect_1d (surf_h sheet) rows_r rr),
                rect_w = snd (src_rect_1d (surf_w sheet) cols_r cc),
                rect_h = snd (src_rect_1d (surf_h sheet) rows_r rr)\<rparr>"
  using assms by (simp add: get_src_for_frame_rot_def src_rect_1d_def Let_def)


lemma get_src_for_frame_rot_cell:
  assumes c: "0 < app_cols a" "0 < app_rows a" and r: "rot \<in> {0, 1, 2, 3}"
    and i: "0 \<le> idx" "idx < app_cols a * app_rows a"
    and s: "sheet_rot_at a rot = Inr sheet"
  shows "\<exists>cc rr. 0 \<le> cc \<and> cc < fst (grid_for_rot a rot) \<and>
           0 \<le> rr \<and> rr < fst (snd (grid_for_rot a rot)) \<and>
           0 < fst (grid_for_rot a rot) \<and> 0 < fst (snd (grid_for_rot a rot)) \<and>
           get_src_for_frame_rot a idx rot =
             Inr \<lparr>rect_x = fst (src_rect_1d (surf_w sheet) (fst (grid_for_rot a rot)) cc),
                  rect_y = fst (src_rect_1d (surf_h sheet) (fst (snd (grid_for_rot a rot))) rr),
                  rect_w = snd (src_rect_1d (surf_w sheet) (fst (grid_for_rot a rot)) cc),
                  rect_h = snd (src_rect_1d (surf_h sheet) (fst (snd (grid_for_rot a rot))) rr)\<rparr>"
proof -
  let ?C = "app_cols a" and ?R = "app_rows a"
  have bc: "idx smod ?C = idx mod ?C" and br: "idx sdiv ?C = idx div ?C"
    using c i by (simp_all add: smod_nonneg sdiv_nonneg)
  note b = div_cell_bound[OF c(1) i]
  obtain rr cc where m: "map_cell_for_rot a rot (idx sdiv ?C) (idx smod ?C) = (rr, cc)"
    by (cases "map_cell_for_rot a rot (idx sdiv ?C) (idx smod ?C)") auto
  obtain cols_r rows_r fw_r fh_r where g: "grid_for_rot a rot = (cols_r, rows_r, fw_r, fh_r)"
    by (cases "grid_for_rot a rot") auto
  have rng: "0 \<le> cc \<and> cc < cols_r \<and> 0 \<le> rr \<and> rr < rows_r \<and> 0 < cols_r \<and> 0 < rows_r"
  proof -
    have m1: "- 1 < idx mod ?C" using b(3) by linarith
    show ?thesis
      using r m g b c m1 unfolding bc br
      by (auto simp: map_cell_for_rot_def grid_for_rot_def Let_def)
  qed
  have "get_src_for_frame_rot a idx rot =
           Inr \<lparr>rect_x = fst (src_rect_1d (surf_w sheet) cols_r cc),
                rect_y = fst (src_rect_1d (surf_h sheet) rows_r rr),
                rect_w = snd (src_rect_1d (surf_w sheet) cols_r cc),
                rect_h = snd (src_rect_1d (surf_h sheet) rows_r rr)\<rparr>"
    using get_src_for_frame_rot_1d[OF s g _ _ _ m] rng c by simp
  then show ?thesis using rng g by auto
qed

text \<open>
  C5 as amended: for every rotation in \<open>{0,1,2,3}\<close> and every frame index in \<open>[0, cols*rows)\<close>,
  \<open>get_src_for_frame_rot\<close> returns (never fails) a rectangle inside the rotated sheet, with
  \<open>w \<ge> 0\<close> and \<open>h \<ge> 0\<close>; \<open>w > 0\<close> when the rotated sheet is at least as wide as its number of
  columns and \<open>h > 0\<close> when it is at least as high as its number of rows.
\<close>

theorem get_src_for_frame_rot_in_bounds:
  assumes "0 < app_cols a" and "0 < app_rows a" and "rot \<in> {0, 1, 2, 3}"
    and "0 \<le> idx" and "idx < app_cols a * app_rows a"
    and "sheet_rot_at a rot = Inr sheet" and "0 \<le> surf_w sheet" and "0 \<le> surf_h sheet"
  shows "\<exists>r. get_src_for_frame_rot a idx rot = Inr r \<and>
           0 \<le> rect_x r \<and> 0 \<le> rect_y r \<and>
           rect_x r + rect_w r \<le> surf_w sheet \<and> rect_y r + rect_h r \<le> surf_h sheet \<and>
           0 \<le> rect_w r \<and> 0 \<le> rect_h r \<and>
           (fst (grid_for_rot a rot) \<le> surf_w sheet \<longrightarrow> 0 < rect_w r) \<and>
           (fst (snd (grid_for_rot a rot)) \<le> surf_h sheet \<longrightarrow> 0 < rect_h r)"
proof -
  obtain cc rr where h: "0 \<le> cc" "cc < fst (grid_for_rot a rot)"
    "0 \<le> rr" "rr < fst (snd (grid_for_rot a rot))"
    "0 < fst (grid_for_rot a rot)" "0 < fst (snd (grid_for_rot a rot))"
    "get_src_for_frame_rot a idx rot =
             Inr \<lparr>rect_x = fst (src_rect_1d (surf_w sheet) (fst (grid_for_rot a rot)) cc),
                  rect_y = fst (src_rect_1d (surf_h sheet) (fst (snd (grid_for_rot a rot))) rr),
                  rect_w = snd (src_rect_1d (surf_w sheet) (fst (grid_for_rot a rot)) cc),
                  rect_h = snd (src_rect_1d (surf_h sheet) (fst (snd (grid_for_rot a rot))) rr)\<rparr>"
    using get_src_for_frame_rot_cell[OF assms(1-6)] by blast
  note bx = src_rect_1d_bounds(1-4)[OF h(5) assms(7) h(1,2)]
  note by' = src_rect_1d_bounds(1-4)[OF h(6) assms(8) h(3,4)]
  show ?thesis using h(7) bx by' by simp
qed

theorem get_src_for_frame_rot_in_bounds_witness:
  "\<exists>r. get_src_for_frame_rot (example_app 800 400) 5 0 = Inr r \<and>
     0 \<le> rect_x r \<and> rect_x r + rect_w r \<le> 800 \<and> 0 \<le> rect_y r \<and> rect_y r + rect_h r \<le> 400 \<and>
     0 < rect_w r \<and> 0 < rect_h r"
proof -
  let ?a = "example_app 800 400"
  have s: "sheet_rot_at ?a 0 = Inr (example_sheet 800 400)"
    by (simp add: sheet_rot_at_def example_app_def)
  have g: "grid_for_rot ?a 0 = (8, 4, 100, 100)"
    by (simp add: grid_for_rot_def example_app_def SPRITE_COLS_def SPRITE_ROWS_def
        signed_divide_int_def)
  have c: "0 < app_cols ?a" "0 < app_rows ?a" "(0::int) \<in> {0, 1, 2, 3}" "(0::int) \<le> 5"
    "5 < app_cols ?a * app_rows ?a"
    by (simp_all add: example_app_def SPRITE_COLS_def SPRITE_ROWS_def)
  have d: "0 \<le> surf_w (example_sheet 800 400)" "0 \<le> surf_h (example_sheet 800 400)"
    "surf_w (example_sheet 800 400) = 800" "surf_h (example_sheet 800 400) = 400"
    by (simp_all add: example_sheet_def)
  from get_src_for_frame_rot_in_bounds[OF c s d(1,2)]
  obtain r where r: "get_src_for_frame_rot ?a 5 0 = Inr r"
    "0 \<le> rect_x r" "0 \<le> rect_y r" "rect_x r + rect_w r \<le> 800" "rect_y r + rect_h r \<le> 400"
    "0 < rect_w r" "0 < rect_h r"
    unfolding g d(3,4) by auto
  then show ?thesis by blast
qed

theorem get_src_for_frame_rot_empty_width:
  "app_cols (example_app 4 4) = 8 \<and> app_rows (example_app 4 4) = 4 \<and>
   get_src_for_frame_rot (example_app 4 4) 0 0 =
     Inr \<lparr>rect_x = 0, rect_y = 0, rect_w = 0, rect_h = 1\<rparr>"
  by (simp add: get_src_for_frame_rot_def sheet_rot_at_def grid_for_rot_def map_cell_for_rot_def
      example_app_def example_sheet_def SPRITE_COLS_def SPRITE_ROWS_def Let_def
      signed_divide_int_def signed_modulo_int_def)

section \<open>Animation timing: C8\<close>

lemma anim_loop_result:
  assumes "step \<noteq> 0" "0 < frames" "0 \<le> frame" "frame < frames"
  shows "anim_loop step frames acc frame =
           Some (Inr (acc mod step, (frame + uint (acc div step)) mod frames))"
  using assms(3,4)
proof (induction "unat acc" arbitrary: acc frame rule: less_induct)
  case less
  show ?case
  proof (cases "step \<le> acc")
    case False
    then have lt: "unat acc < unat step" by (simp add: word_le_nat_alt)
    have m: "acc mod step = acc"
      by (rule word_unat_eq_iff[THEN iffD2]) (simp add: unat_mod lt)
    have "unat (acc div step) = 0" using lt by (simp add: unat_div)
    then have d: "uint (acc div step) = 0" by (simp add: unat_eq_zero)
    have f: "frame mod frames = frame" using less.prems by simp
    show ?thesis
      using False by (subst anim_loop.simps) (simp add: m d f)
  next
    case True
    have s0: "0 < unat step" using assms(1) by (simp add: unat_gt_0)
    have le: "unat step \<le> unat acc" using True by (simp add: word_le_nat_alt)
    have sub: "unat (acc - step) = unat acc - unat step" using True by (simp add: unat_sub)
    have dec: "unat (acc - step) < unat acc" using sub s0 le by simp
    have f1: "(frame + 1) smod frames = (frame + 1) mod frames"
      using less.prems assms(2) by (simp add: smod_nonneg)
    have f2: "0 \<le> (frame + 1) mod frames" "(frame + 1) mod frames < frames"
      using assms(2) by simp_all
    have ih: "anim_loop step frames (acc - step) ((frame + 1) mod frames) =
           Some (Inr ((acc - step) mod step,
                      ((frame + 1) mod frames + uint ((acc - step) div step)) mod frames))"
      by (rule less.hyps[OF dec f2])
    have m: "(acc - step) mod step = acc mod step"
      by (rule word_unat_eq_iff[THEN iffD2]) (simp add: unat_mod sub le_mod_geq[OF le])
    have "unat (acc div step) = Suc (unat ((acc - step) div step))"
      using le s0 by (simp add: unat_div sub le_div_geq)
    then have "int (unat (acc div step)) = int (unat ((acc - step) div step)) + 1" by simp
    then have d: "uint (acc div step) = uint ((acc - step) div step) + 1" by simp
    have fr: "((frame + 1) mod frames + uint ((acc - step) div step)) mod frames =
              (frame + uint (acc div step)) mod frames"
      unfolding d by (simp add: mod_add_left_eq algebra_simps)
    show ?thesis
      using True assms(2) ih by (subst anim_loop.simps) (simp add: f1 m fr)
  qed
qed

text \<open>
  C8: for a non-zero effective step and an in-range frame index, the animation update returns;
  it adds the elapsed delta to the accumulator (in \<open>Uint32\<close> arithmetic), advances the frame
  index by the quotient of the accumulator by the step, modulo the frame count, and leaves the
  remainder in the accumulator; afterwards the accumulator is less than the step and the frame
  index is in \<open>[0, frames)\<close>.
\<close>

theorem iterate_anim_catches_up:
  assumes "app_anim_step_ms_eff a \<noteq> 0" and "0 < app_frames a"
    and "0 \<le> app_frame a" and "app_frame a < app_frames a"
  shows "\<exists>a'. iterate_anim now a = Some (Inr a') \<and>
           a' = a\<lparr>app_last_ms := now,
                  app_ms_accum := (app_ms_accum a + (now - app_last_ms a)) mod app_anim_step_ms_eff a,
                  app_frame := (app_frame a
                     + uint ((app_ms_accum a + (now - app_last_ms a)) div app_anim_step_ms_eff a))
                     mod app_frames a\<rparr> \<and>
           app_ms_accum a' < app_anim_step_ms_eff a \<and>
           0 \<le> app_frame a' \<and> app_frame a' < app_frames a"
proof -
  have lt: "w mod app_anim_step_ms_eff a < app_anim_step_ms_eff a" for w
    using assms(1) by (simp add: word_mod_less_divisor word_greater_zero_iff)
  show ?thesis
    using anim_loop_result[OF assms] assms(2) lt
    by (simp add: iterate_anim_def Let_def)
qed

theorem iterate_anim_catches_up_witness:
  "\<exists>a'. iterate_anim 100 (example_app 800 400) = Some (Inr a') \<and>
     app_ms_accum a' = 18 \<and> app_frame a' = 2"
proof -
  let ?a = "example_app 800 400"
  have h: "app_anim_step_ms_eff ?a \<noteq> 0" "0 < app_frames ?a" "0 \<le> app_frame ?a"
    "app_frame ?a < app_frames ?a"
    by (simp_all add: example_app_def SPRITE_COLS_def SPRITE_ROWS_def)
  have v: "app_anim_step_ms_eff ?a = 41" "app_ms_accum ?a = 0" "app_last_ms ?a = 0"
    "app_frame ?a = 0" "app_frames ?a = 32"
    by (simp_all add: example_app_def SPRITE_COLS_def SPRITE_ROWS_def)
  have m: "(100 :: Uint32) mod 41 = 18" "(100 :: Uint32) div 41 = 2" by simp_all
  from iterate_anim_catches_up[OF h, of 100]
  show ?thesis unfolding v by (auto simp: m)
qed

section \<open>Scale presets: C9\<close>

lemma float_ok_half:
  assumes "float_ok P" "\<bar>n\<bar> \<le> 2 ^ 24"
  shows "float_round P (of_int n / 2) = of_int n / 2"
  using assms unfolding float_ok_def by blast

lemma float_ok_int:
  assumes "float_ok P" "\<bar>n\<bar> \<le> 2 ^ 23"
  shows "float_round P (of_int n) = of_int n"
proof -
  have "\<bar>2 * n\<bar> \<le> 2 ^ 24" using assms(2) by simp
  from float_ok_half[OF assms(1) this] show ?thesis by simp
qed

lemma float_ok_mono: "float_ok P \<Longrightarrow> r \<le> s \<Longrightarrow> float_round P r \<le> float_round P s"
  unfolding float_ok_def mono_def by blast

lemma packed_platform_float_ok: "float_ok packed_platform"
  by (simp add: float_ok_def packed_platform_def mono_def)

lemma float_ok_scale_diffs:
  assumes "float_ok P"
  shows "float_round P (3 / 2) = 3 / 2" "float_round P 1 = 1" "float_round P (1 / 2) = 1 / 2"
    "float_round P 0 = 0" "float_round P (- (1 / 2)) = - (1 / 2)" "float_round P (- 1) = - 1"
    "float_round P (- (3 / 2)) = - (3 / 2)" "float_round P (- 2) = - 2"
    "float_round P (- 3) = - 3" "float_round P (- 4) = - 4"
  using float_ok_half[OF assms, of 3] float_ok_half[OF assms, of 2] float_ok_half[OF assms, of 1]
    float_ok_half[OF assms, of 0] float_ok_half[OF assms, of "- 1"] float_ok_half[OF assms, of "- 2"]
    float_ok_half[OF assms, of "- 3"] float_ok_half[OF assms, of "- 4"]
    float_ok_half[OF assms, of "- 6"] float_ok_half[OF assms, of "- 8"]
  by simp_all

lemma find_closest_default:
  assumes "float_ok P"
  shows "find_closest_scale_index P DEFAULT_SCALE = Inr 3"
  using float_ok_scale_diffs[OF assms]
  by (simp add: find_closest_scale_index_def find_closest_step_def scale_option_def
      SCALE_COUNT_def SCALE_OPTIONS_def DEFAULT_SCALE_def f_sub_def for_up.simps Let_def)


lemma clamp_xy_for_rot_keeps:
  "app_scale_idx (clamp_xy_for_rot P a) = app_scale_idx a"
  "app_scale (clamp_xy_for_rot P a) = app_scale a"
  "app_rot (clamp_xy_for_rot P a) = app_rot a"
  by (simp_all add: clamp_xy_for_rot_def Let_def split: prod.splits)

lemma app_key_S:
  assumes "0 \<le> app_scale_idx a"
  shows "\<exists>a'. app_key P SDL_SCANCODE_S a = Inr (SDL_APP_CONTINUE, a') \<and>
           app_scale_idx a' = (app_scale_idx a + 1) mod SCALE_COUNT \<and>
           scale_option (app_scale_idx a') = Inr (app_scale a')"
proof -
  have n: "SCALE_COUNT = 10" by (simp add: SCALE_COUNT_def SCALE_OPTIONS_def)
  have m: "(app_scale_idx a + 1) smod SCALE_COUNT = (app_scale_idx a + 1) mod SCALE_COUNT"
    using assms by (simp add: smod_nonneg n)
  have r: "0 \<le> (app_scale_idx a + 1) mod SCALE_COUNT" "(app_scale_idx a + 1) mod SCALE_COUNT < SCALE_COUNT"
    by (simp_all add: n)
  then have so: "scale_option ((app_scale_idx a + 1) mod SCALE_COUNT) =
      Inr (SCALE_OPTIONS ! nat ((app_scale_idx a + 1) mod SCALE_COUNT))"
    by (simp add: scale_option_def)
  show ?thesis
    by (simp add: app_key_def m so Let_def clamp_xy_for_rot_keeps update_anim_budget_def)
qed

text \<open>
  C9: the initial scale index is the index of the entry of \<open>SCALE_OPTIONS\<close> closest to
  \<open>DEFAULT_SCALE\<close>, index 3 with scale 2.0; from there three CycleScale commands (key S) lead
  to index 6 and scale 3.5; and each CycleScale command sets the index to
  \<open>(scale_idx + 1) mod SCALE_COUNT\<close> and the scale to the entry at the new index.
\<close>

theorem cycle_scale_three_times:
  assumes "float_ok P"
  shows "SCALE_OPTIONS = [0.5, 1.0, 1.5, 2.0, 2.5, 3.0, 3.5, 4.0, 5.0, 6.0] \<and>
         (\<exists>a0 a1 a2 a3.
            SDL_AppInit_scale P a = Inr a0 \<and> app_scale_idx a0 = 3 \<and> app_scale a0 = 2 \<and>
            app_key P SDL_SCANCODE_S a0 = Inr (SDL_APP_CONTINUE, a1) \<and>
            app_key P SDL_SCANCODE_S a1 = Inr (SDL_APP_CONTINUE, a2) \<and>
            app_key P SDL_SCANCODE_S a2 = Inr (SDL_APP_CONTINUE, a3) \<and>
            app_scale_idx a3 = 6 \<and> app_scale a3 = 3.5) \<and>
         (0 \<le> app_scale_idx b \<longrightarrow>
            (\<exists>b'. app_key P SDL_SCANCODE_S b = Inr (SDL_APP_CONTINUE, b') \<and>
                  app_scale_idx b' = (app_scale_idx b + 1) mod SCALE_COUNT \<and>
                  scale_option (app_scale_idx b') = Inr (app_scale b')))"
proof -
  have n: "SCALE_COUNT = 10" by (simp add: SCALE_COUNT_def SCALE_OPTIONS_def)
  have so: "scale_option 3 = Inr 2" "scale_option 4 = Inr 2.5" "scale_option 5 = Inr 3"
    "scale_option 6 = Inr 3.5"
    by (simp_all add: scale_option_def SCALE_COUNT_def SCALE_OPTIONS_def)
  define a0 where "a0 = update_anim_budget (a\<lparr>app_scale_idx := 3, app_scale := 2\<rparr>)"
  have i0: "SDL_AppInit_scale P a = Inr a0"
    by (simp add: SDL_AppInit_scale_def find_closest_default[OF assms] so a0_def Let_def)
  have v0: "app_scale_idx a0 = 3" "app_scale a0 = 2"
    by (simp_all add: a0_def update_anim_budget_def)
  obtain a1 where a1: "app_key P SDL_SCANCODE_S a0 = Inr (SDL_APP_CONTINUE, a1)"
    "app_scale_idx a1 = 4" "scale_option (app_scale_idx a1) = Inr (app_scale a1)"
    using app_key_S[of a0 P] by (auto simp: v0 n)
  obtain a2 where a2: "app_key P SDL_SCANCODE_S a1 = Inr (SDL_APP_CONTINUE, a2)"
    "app_scale_idx a2 = 5" "scale_option (app_scale_idx a2) = Inr (app_scale a2)"
    using app_key_S[of a1 P] by (auto simp: a1(2) n)
  obtain a3 where a3: "app_key P SDL_SCANCODE_S a2 = Inr (SDL_APP_CONTINUE, a3)"
    "app_scale_idx a3 = 6" "scale_option (app_scale_idx a3) = Inr (app_scale a3)"
    using app_key_S[of a2 P] by (auto simp: a2(2) n)
  have s3: "app_scale a3 = 3.5" using a3(2,3) so by simp
  have first: "\<exists>a0 a1 a2 a3.
            SDL_AppInit_scale P a = Inr a0 \<and> app_scale_idx a0 = 3 \<and> app_scale a0 = 2 \<and>
            app_key P SDL_SCANCODE_S a0 = Inr (SDL_APP_CONTINUE, a1) \<and>
            app_key P SDL_SCANCODE_S a1 = Inr (SDL_APP_CONTINUE, a2) \<and>
            app_key P SDL_SCANCODE_S a2 = Inr (SDL_APP_CONTINUE, a3) \<and>
            app_scale_idx a3 = 6 \<and> app_scale a3 = 3.5"
    using i0 v0 a1(1) a2(1) a3(1,2) s3 by blast
  have second: "0 \<le> app_scale_idx b \<longrightarrow>
            (\<exists>b'. app_key P SDL_SCANCODE_S b = Inr (SDL_APP_CONTINUE, b') \<and>
                  app_scale_idx b' = (app_scale_idx b + 1) mod SCALE_COUNT \<and>
                  scale_option (app_scale_idx b') = Inr (app_scale b'))"
    using app_key_S[of b P] by blast
  show ?thesis using first second by (simp add: SCALE_OPTIONS_def)
qed

theorem cycle_scale_three_times_witness:
  "(\<exists>a0 a1 a2 a3.
     SDL_AppInit_scale packed_platform (example_app 800 400) = Inr a0 \<and>
     app_key packed_platform SDL_SCANCODE_S a0 = Inr (SDL_APP_CONTINUE, a1) \<and>
     app_key packed_platform SDL_SCANCODE_S a1 = Inr (SDL_APP_CONTINUE, a2) \<and>
     app_key packed_platform SDL_SCANCODE_S a2 = Inr (SDL_APP_CONTINUE, a3) \<and>
     app_scale_idx a3 = 6 \<and> app_scale a3 = 3.5) \<and>
   (\<exists>b'. app_key packed_platform SDL_SCANCODE_S (example_app 800 400) = Inr (SDL_APP_CONTINUE, b') \<and>
     app_scale_idx b' = 4 \<and> app_scale b' = 2.5)"
proof -
  have i: "app_scale_idx (example_app 800 400) = 3" by (simp add: example_app_def)
  have n: "SCALE_COUNT = 10" by (simp add: SCALE_COUNT_def SCALE_OPTIONS_def)
  have so: "scale_option 4 = Inr 2.5"
    by (simp add: scale_option_def SCALE_COUNT_def SCALE_OPTIONS_def)
  note t = cycle_scale_three_times[OF packed_platform_float_ok,
      of "example_app 800 400" "example_app 800 400"]
  from t have "\<exists>b'. app_key packed_platform SDL_SCANCODE_S (example_app 800 400) = Inr (SDL_APP_CONTINUE, b') \<and>
     app_scale_idx b' = 4 \<and> scale_option (app_scale_idx b') = Inr (app_scale b')"
    by (simp add: i n)
  then have "\<exists>b'. app_key packed_platform SDL_SCANCODE_S (example_app 800 400) = Inr (SDL_APP_CONTINUE, b') \<and>
     app_scale_idx b' = 4 \<and> app_scale b' = 2.5"
    using so by auto
  with t show ?thesis by blast
qed

section \<open>Motion: C3\<close>

lemma int_of_float_of_int: "int_of_float (of_int n) = n"
  by (simp add: int_of_float_def)

lemma int_of_float_nonneg: "0 \<le> r \<Longrightarrow> 0 \<le> int_of_float r"
  by (simp add: int_of_float_def)

lemma bounce_axis:
  fixes p v :: real and d S :: int
  assumes f: "float_ok P" and d: "0 \<le> d" "d \<le> S" and S: "S < 2 ^ 23"
  defines "p1 \<equiv> f_add P p v"
  defines "p2 \<equiv> (if p1 < 0 then 0 else p1)"
  defines "p3 \<equiv> (if f_add P p2 (f_of_int P d) > f_of_int P S then f_of_int P (S - d) else p2)"
  shows "0 \<le> int_of_float p3" and "int_of_float p3 + d \<le> S"
    and "p1 < 0 \<Longrightarrow> \<not> f_add P p2 (f_of_int P d) > f_of_int P S"
proof -
  have fd: "f_of_int P d = of_int d" using float_ok_int[OF f, of d] d S by (simp add: f_of_int_def)
  have fS: "f_of_int P S = of_int S" using float_ok_int[OF f, of S] d S by (simp add: f_of_int_def)
  have fSd: "f_of_int P (S - d) = of_int (S - d)"
    using float_ok_int[OF f, of "S - d"] d S by (simp add: f_of_int_def)
  have fS1: "float_round P (of_int (S + 1)) = of_int (S + 1)"
    using float_ok_int[OF f, of "S + 1"] d S by simp
  have z: "f_add P 0 (of_int d) = of_int d"
    using float_ok_int[OF f, of d] d S by (simp add: f_add_def)
  show low: "\<not> f_add P p2 (f_of_int P d) > f_of_int P S" if "p1 < 0"
    using that d by (simp add: p2_def fd fS z)
  have p2: "0 \<le> p2" by (simp add: p2_def)
  show "0 \<le> int_of_float p3"
    using p2 d by (auto simp: p3_def fSd intro: int_of_float_nonneg)
  show "int_of_float p3 + d \<le> S"
  proof (cases "f_add P p2 (f_of_int P d) > f_of_int P S")
    case True
    then show ?thesis by (simp add: p3_def fSd int_of_float_of_int del: of_int_diff)
  next
    case False
    then have le: "float_round P (p2 + of_int d) \<le> of_int S" by (simp add: f_add_def fd fS)
    have "p2 + of_int d < of_int (S + 1)"
    proof (rule ccontr)
      assume "\<not> p2 + of_int d < of_int (S + 1)"
      then have "of_int (S + 1) \<le> p2 + of_int d" by simp
      from float_ok_mono[OF f this] have "of_int (S + 1) \<le> float_round P (p2 + of_int d)"
        by (simp only: fS1)
      with le show False by simp
    qed
    then have "of_int \<lfloor>p2\<rfloor> + of_int d < (of_int (S + 1) :: real)"
      using of_int_floor_le[of p2] by linarith
    then have "\<lfloor>p2\<rfloor> + d < S + 1" by (simp only: of_int_add[symmetric] of_int_less_iff)
    then show ?thesis using False p2 by (simp add: p3_def int_of_float_def)
  qed
qed


lemma iterate_move_fields:
  fixes a :: App and P :: platform and dw dh :: int
  defines "x1 \<equiv> f_add P (app_x a) (app_vx a)" and "y1 \<equiv> f_add P (app_y a) (app_vy a)"
  defines "x2 \<equiv> (if x1 < 0 then 0 else x1)" and "y2 \<equiv> (if y1 < 0 then 0 else y1)"
  defines "hx \<equiv> f_add P x2 (f_of_int P dw) > f_of_int P (app_screen_w a)"
    and "hy \<equiv> f_add P y2 (f_of_int P dh) > f_of_int P (app_screen_h a)"
  shows "app_x (iterate_move P dw dh a) = (if hx then f_of_int P (app_screen_w a - dw) else x2)"
    and "app_y (iterate_move P dw dh a) = (if hy then f_of_int P (app_screen_h a - dh) else y2)"
    and "app_vx (iterate_move P dw dh a) =
           (if hx then - (if x1 < 0 then - app_vx a else app_vx a)
            else (if x1 < 0 then - app_vx a else app_vx a))"
    and "app_vy (iterate_move P dw dh a) =
           (if hy then - (if y1 < 0 then - app_vy a else app_vy a)
            else (if y1 < 0 then - app_vy a else app_vy a))"
  unfolding hx_def hy_def x2_def y2_def x1_def y1_def
  by (simp_all add: iterate_move_def Let_def)

text \<open>
  C3 as amended: when the draw size fits the screen (\<open>0 \<le> dw \<le> screen_w\<close>,
  \<open>0 \<le> dh \<le> screen_h\<close>), then for every position and velocity, after the move-and-bounce step
  the draw rectangle \<open>((int)x, (int)y, dw, dh)\<close> lies within the screen, and each velocity
  component is negated exactly when one of the two edge checks of its axis fired (at most one
  of them can), independently of the other axis.
\<close>

theorem iterate_move_stays_on_screen:
  fixes a :: App and P :: platform and dw dh :: int
  assumes "float_ok P"
    and "0 \<le> dw" and "dw \<le> app_screen_w a" and "0 \<le> dh" and "dh \<le> app_screen_h a"
    and "app_screen_w a < 2 ^ 23" and "app_screen_h a < 2 ^ 23"
  defines "a' \<equiv> iterate_move P dw dh a"
  defines "x1 \<equiv> f_add P (app_x a) (app_vx a)" and "y1 \<equiv> f_add P (app_y a) (app_vy a)"
  shows "0 \<le> int_of_float (app_x a') \<and> int_of_float (app_x a') + dw \<le> app_screen_w a \<and>
         0 \<le> int_of_float (app_y a') \<and> int_of_float (app_y a') + dh \<le> app_screen_h a \<and>
         app_vx a' = (if x1 < 0 \<or> f_add P x1 (f_of_int P dw) > f_of_int P (app_screen_w a)
                      then - app_vx a else app_vx a) \<and>
         app_vy a' = (if y1 < 0 \<or> f_add P y1 (f_of_int P dh) > f_of_int P (app_screen_h a)
                      then - app_vy a else app_vy a) \<and>
         \<not> (x1 < 0 \<and> f_add P 0 (f_of_int P dw) > f_of_int P (app_screen_w a)) \<and>
         \<not> (y1 < 0 \<and> f_add P 0 (f_of_int P dh) > f_of_int P (app_screen_h a))"
proof -
  note bx = bounce_axis[OF assms(1,2,3,6), of "app_x a" "app_vx a"]
  note by' = bounce_axis[OF assms(1,4,5,7), of "app_y a" "app_vy a"]
  note fl = iterate_move_fields[of P dw dh a]
  have x: "0 \<le> int_of_float (app_x a')" "int_of_float (app_x a') + dw \<le> app_screen_w a"
    using bx(1,2) unfolding a'_def fl(1) by simp_all
  have y: "0 \<le> int_of_float (app_y a')" "int_of_float (app_y a') + dh \<le> app_screen_h a"
    using by'(1,2) unfolding a'_def fl(2) by simp_all
  have nx: "\<not> (x1 < 0 \<and> f_add P 0 (f_of_int P dw) > f_of_int P (app_screen_w a))"
    using bx(3) unfolding x1_def by auto
  have ny: "\<not> (y1 < 0 \<and> f_add P 0 (f_of_int P dh) > f_of_int P (app_screen_h a))"
    using by'(3) unfolding y1_def by auto
  have vx: "app_vx a' = (if x1 < 0 \<or> f_add P x1 (f_of_int P dw) > f_of_int P (app_screen_w a)
                      then - app_vx a else app_vx a)"
    using nx unfolding a'_def fl(3) x1_def by auto
  have vy: "app_vy a' = (if y1 < 0 \<or> f_add P y1 (f_of_int P dh) > f_of_int P (app_screen_h a)
                      then - app_vy a else app_vy a)"
    using ny unfolding a'_def fl(4) y1_def by auto
  show ?thesis using x y vx vy nx ny by blast
qed

theorem iterate_move_stays_on_screen_witness:
  "int_of_float (app_x (iterate_move packed_platform 200 200 ((example_app 800 400)\<lparr>app_x := 0, app_vx := - 1.8\<rparr>))) = 0 \<and>
   app_vx (iterate_move packed_platform 200 200 ((example_app 800 400)\<lparr>app_x := 0, app_vx := - 1.8\<rparr>)) = 1.8 \<and>
   app_vy (iterate_move packed_platform 200 200 ((example_app 800 400)\<lparr>app_x := 0, app_vx := - 1.8\<rparr>)) = 1.4"
proof -
  let ?a = "(example_app 800 400)\<lparr>app_x := 0, app_vx := - 1.8\<rparr>"
  have h: "(0::int) \<le> 200" "200 \<le> app_screen_w ?a" "200 \<le> app_screen_h ?a"
    "app_screen_w ?a < 2 ^ 23" "app_screen_h ?a < 2 ^ 23"
    by (simp_all add: example_app_def)
  have v: "app_x ?a = 0" "app_vx ?a = - 1.8" "app_y ?a = 260" "app_vy ?a = 1.4"
    "app_screen_w ?a = 720" "app_screen_h ?a = 720"
    by (simp_all add: example_app_def SPRITE_ROWS_def signed_divide_int_def)
  have e: "f_add packed_platform r s = r + s" "f_of_int packed_platform n = of_int n" for r s n
    by (simp_all add: f_add_def f_of_int_def packed_platform_def)
  note t = iterate_move_stays_on_screen[OF packed_platform_float_ok h(1,2,1,3,4,5)]
  have vx: "app_vx (iterate_move packed_platform 200 200 ?a) = 1.8"
    and vy: "app_vy (iterate_move packed_platform 200 200 ?a) = 1.4"
    using t unfolding e
    by (simp_all add: example_app_def SPRITE_ROWS_def signed_divide_int_def)
  have "app_x (iterate_move packed_platform 200 200 ?a) = 0"
    by (simp add: iterate_move_fields e example_app_def SPRITE_ROWS_def signed_divide_int_def)
  then have "int_of_float (app_x (iterate_move packed_platform 200 200 ?a)) = 0"
    by (simp add: int_of_float_def)
  with vx vy show ?thesis by simp
qed

theorem iterate_move_oversized_sprite:
  "draw_size_for_rot packed_platform (example_app 2960 400) 0 = (740, 200) \<and>
   app_screen_w (example_app 2960 400) = 720 \<and>
   app_x (example_app 2960 400) = - 10 \<and> app_vx (example_app 2960 400) = 1.8 \<and>
   app_x (iterate_move packed_platform 740 200 (example_app 2960 400)) = - 20 \<and>
   int_of_float (app_x (iterate_move packed_platform 740 200 (example_app 2960 400))) = - 20 \<and>
   app_vx (iterate_move packed_platform 740 200 (example_app 2960 400)) = 1.8"
proof -
  let ?a = "example_app 2960 400"
  have v: "app_x ?a = - 10" "app_vx ?a = 1.8" "app_y ?a = 260" "app_vy ?a = 1.4"
    "app_screen_w ?a = 720" "app_screen_h ?a = 720" "app_fw ?a = 370" "app_fh ?a = 100"
    "app_cols ?a = 8" "app_rows ?a = 4" "app_scale ?a = 2"
    by (simp_all add: example_app_def SPRITE_ROWS_def SPRITE_COLS_def signed_divide_int_def)
  have e: "f_add packed_platform r s = r + s" "f_of_int packed_platform n = of_int n"
    "f_mul packed_platform r s = r * s" for r s n
    by (simp_all add: f_add_def f_of_int_def f_mul_def packed_platform_def)
  have ds: "draw_size_for_rot packed_platform ?a 0 = (740, 200)"
    by (simp add: draw_size_for_rot_def grid_for_rot_def v e int_of_float_def Let_def)
  have x: "app_x (iterate_move packed_platform 740 200 ?a) = - 20"
    by (simp add: iterate_move_fields v e)
  have vx: "app_vx (iterate_move packed_platform 740 200 ?a) = 1.8"
    by (simp add: iterate_move_fields v e)
  have "int_of_float (- 20) = - 20" by (simp add: int_of_float_def)
  with ds x vx v show ?thesis by simp
qed

section \<open>Fast blit: the loops\<close>

lemma word16_of_bytes: "word_cat (ucast (drop_bit 8 v) :: Uint8) (ucast v :: Uint8) = (v :: Uint16)"
  by (rule bit_word_eqI) (auto simp: bit_word_cat_iff bit_ucast_iff bit_drop_bit_eq)

lemma load16_ok:
  assumes "grid_ok 2 W H P buf" "0 \<le> X" "X < W" "0 \<le> Y" "Y < H"
  shows "\<exists>v. load16 buf (Y * P + X * 2) = Inr v"
  using load_bytes_ok[OF grid_cell_in_range[OF assms]] by (auto simp: load16_def)

lemma store16_cell:
  assumes g: "grid_ok 2 W H P buf" and c: "0 \<le> X0" "X0 < W" "0 \<le> Y0" "Y0 < H"
  shows "\<exists>buf'. store16 buf (Y0 * P + X0 * 2) v = Inr buf' \<and> grid_ok 2 W H P buf' \<and>
           (\<forall>X Y. 0 \<le> X \<and> X < W \<and> 0 \<le> Y \<and> Y < H \<longrightarrow>
              load16 buf' (Y * P + X * 2) =
                (if X = X0 \<and> Y = Y0 then Inr v else load16 buf (Y * P + X * 2)))"
proof -
  let ?bs = "[ucast v, ucast (drop_bit 8 v)] :: Uint8 list"
  have l: "int (length ?bs) = 2" by simp
  obtain buf' where b: "store_bytes buf (Y0 * P + X0 * 2) ?bs = Inr buf'" "grid_ok 2 W H P buf'"
    "\<forall>X Y. 0 \<le> X \<and> X < W \<and> 0 \<le> Y \<and> Y < H \<longrightarrow>
              load_bytes buf' (Y * P + X * 2) 2 =
                (if X = X0 \<and> Y = Y0 then Inr ?bs else load_bytes buf (Y * P + X * 2) 2)"
    using store_cell[OF g c l] by blast
  have "load16 buf' (Y * P + X * 2) =
          (if X = X0 \<and> Y = Y0 then Inr v else load16 buf (Y * P + X * 2))"
    if h: "0 \<le> X \<and> X < W \<and> 0 \<le> Y \<and> Y < H" for X Y
    using b(3)[rule_format, OF h] by (simp add: load16_def word16_of_bytes)
  with b(1,2) show ?thesis by (auto simp: store16_def)
qed

lemma div_cell:
  assumes "0 < (k::int)" "s * k \<le> d" "d < s * k + k"
  shows "d div k = s"
proof -
  have "d = (d - s * k) + s * k" by simp
  then have "d div k = ((d - s * k) + s * k) div k" by simp
  also have "\<dots> = (d - s * k) div k + s" using assms(1) by (simp only: div_mult_self1) 
  also have "(d - s * k) div k = 0" using assms by (intro div_pos_pos_trivial) auto
  finally show ?thesis by simp
qed

lemma blit_up_rep_loop:
  assumes g: "grid_ok 2 W H P dp0" and k: "0 \<le> k"
    and c: "0 \<le> Xb" "Xb + k \<le> W" "0 \<le> Y" "Y < H"
  shows "\<exists>dp. for_up 0 k (blit_up_rep (Y * P + 2 * X0) (Xb - X0) pix) dp0 = Inr dp \<and>
           grid_ok 2 W H P dp \<and>
           (\<forall>X Y'. 0 \<le> X \<and> X < W \<and> 0 \<le> Y' \<and> Y' < H \<longrightarrow>
              load16 dp (Y' * P + X * 2) =
                (if Y' = Y \<and> Xb \<le> X \<and> X < Xb + k then Inr pix else load16 dp0 (Y' * P + X * 2)))"
proof -
  define I where "I = (\<lambda>i dp. grid_ok 2 W H P dp \<and>
           (\<forall>X Y'. 0 \<le> X \<and> X < W \<and> 0 \<le> Y' \<and> Y' < H \<longrightarrow>
              load16 dp (Y' * P + X * 2) =
                (if Y' = Y \<and> Xb \<le> X \<and> X < Xb + i then Inr pix else load16 dp0 (Y' * P + X * 2))))"
  have init: "I 0 dp0" using g by (auto simp: I_def)
  have step: "\<exists>dp'. blit_up_rep (Y * P + 2 * X0) (Xb - X0) pix i dp = Inr dp' \<and> I (i + 1) dp'"
    if i: "0 \<le> i" "i < k" and inv: "I i dp" for i dp
  proof -
    from inv have gd: "grid_ok 2 W H P dp" by (simp add: I_def)
    have cx: "0 \<le> Xb + i" "Xb + i < W" using i c by auto
    obtain dp' where dp': "store16 dp (Y * P + (Xb + i) * 2) pix = Inr dp'" "grid_ok 2 W H P dp'"
      "\<forall>X Y'. 0 \<le> X \<and> X < W \<and> 0 \<le> Y' \<and> Y' < H \<longrightarrow>
              load16 dp' (Y' * P + X * 2) =
                (if X = Xb + i \<and> Y' = Y then Inr pix else load16 dp (Y' * P + X * 2))"
      using store16_cell[OF gd cx c(3,4), of pix] by blast
    have off: "Y * P + 2 * X0 + 2 * (Xb - X0 + i) = Y * P + (Xb + i) * 2" by (simp add: algebra_simps)
    have r: "blit_up_rep (Y * P + 2 * X0) (Xb - X0) pix i dp = Inr dp'"
      unfolding blit_up_rep_def off by (rule dp'(1))
    have "I (i + 1) dp'"
      unfolding I_def
    proof (intro conjI allI impI)
      show "grid_ok 2 W H P dp'" by (rule dp'(2))
    next
      fix X Y' assume h: "0 \<le> X \<and> X < W \<and> 0 \<le> Y' \<and> Y' < H"
      have a: "load16 dp' (Y' * P + X * 2) =
                (if X = Xb + i \<and> Y' = Y then Inr pix else load16 dp (Y' * P + X * 2))"
        using dp'(3) h by blast
      have b: "load16 dp (Y' * P + X * 2) =
                (if Y' = Y \<and> Xb \<le> X \<and> X < Xb + i then Inr pix else load16 dp0 (Y' * P + X * 2))"
        using inv h unfolding I_def by blast
      show "load16 dp' (Y' * P + X * 2) =
                (if Y' = Y \<and> Xb \<le> X \<and> X < Xb + (i + 1) then Inr pix else load16 dp0 (Y' * P + X * 2))"
        using a b i by (cases "X = Xb + i") auto
    qed
    with r show ?thesis by blast
  qed
  obtain dp where dp: "for_up 0 k (blit_up_rep (Y * P + 2 * X0) (Xb - X0) pix) dp0 = Inr dp" "I (max 0 k) dp"
    using for_up_rule[of I 0 dp0 k "blit_up_rep (Y * P + 2 * X0) (Xb - X0) pix", OF init step] by blast
  have m: "max 0 k = k" using k by simp
  show ?thesis using dp unfolding m I_def by blast
qed

lemma blit_up_sx_loop:
  assumes g: "grid_ok 2 W H P dp0" and k: "0 < k" and w: "0 \<le> w"
    and c: "0 \<le> X0" "X0 + w * k \<le> W" "0 \<le> Y" "Y < H"
    and src: "\<forall>sx. 0 \<le> sx \<and> sx < w \<longrightarrow> (\<exists>v. load16 sp (srow + 2 * sx) = Inr v)"
  shows "\<exists>dx dp. for_up 0 w (blit_up_sx sp srow (Y * P + 2 * X0) key k) (0, dp0) = Inr (dx, dp) \<and>
           grid_ok 2 W H P dp \<and>
           (\<forall>X Y'. 0 \<le> X \<and> X < W \<and> 0 \<le> Y' \<and> Y' < H \<longrightarrow>
              load16 dp (Y' * P + X * 2) =
                (if Y' = Y \<and> X0 \<le> X \<and> X < X0 + w * k \<and>
                    load16 sp (srow + 2 * ((X - X0) div k)) \<noteq> Inr key
                 then load16 sp (srow + 2 * ((X - X0) div k))
                 else load16 dp0 (Y' * P + X * 2)))"
proof -
  define I where "I = (\<lambda>sx (s :: int \<times> Uint8 list). fst s = sx * k \<and> grid_ok 2 W H P (snd s) \<and>
           (\<forall>X Y'. 0 \<le> X \<and> X < W \<and> 0 \<le> Y' \<and> Y' < H \<longrightarrow>
              load16 (snd s) (Y' * P + X * 2) =
                (if Y' = Y \<and> X0 \<le> X \<and> X < X0 + sx * k \<and>
                    load16 sp (srow + 2 * ((X - X0) div k)) \<noteq> Inr key
                 then load16 sp (srow + 2 * ((X - X0) div k))
                 else load16 dp0 (Y' * P + X * 2))))"
  have init: "I 0 (0, dp0)" using g by (auto simp: I_def)
  have step: "\<exists>s'. blit_up_sx sp srow (Y * P + 2 * X0) key k sx s = Inr s' \<and> I (sx + 1) s'"
    if sx: "0 \<le> sx" "sx < w" and inv: "I sx s" for sx s
  proof -
    obtain dx dp where s: "s = (dx, dp)" by (cases s) auto
    from inv have dx: "dx = sx * k" and gd: "grid_ok 2 W H P dp"
      and old: "\<And>X Y'. 0 \<le> X \<and> X < W \<and> 0 \<le> Y' \<and> Y' < H \<Longrightarrow>
              load16 dp (Y' * P + X * 2) =
                (if Y' = Y \<and> X0 \<le> X \<and> X < X0 + sx * k \<and>
                    load16 sp (srow + 2 * ((X - X0) div k)) \<noteq> Inr key
                 then load16 sp (srow + 2 * ((X - X0) div k))
                 else load16 dp0 (Y' * P + X * 2))"
      unfolding I_def s by auto
    obtain pix where pix: "load16 sp (srow + 2 * sx) = Inr pix" using src sx by blast
    have k0: "0 \<le> sx * k" using sx k by simp
    have "(sx + 1) * k \<le> w * k" using sx k by (intro mult_right_mono) auto
    then have top: "X0 + sx * k + k \<le> W" using c(2) by (simp add: algebra_simps)
    have cellcol: "(X - X0) div k = sx" if "X0 + sx * k \<le> X" "X < X0 + sx * k + k" for X
      using that by (intro div_cell[OF k]) auto
    have nxt: "X0 + (sx + 1) * k = X0 + sx * k + k" by (simp add: algebra_simps)
    show ?thesis
    proof (cases "pix = key")
      case True
      have r: "blit_up_sx sp srow (Y * P + 2 * X0) key k sx s = Inr (dx + k, dp)"
        using pix True by (simp add: blit_up_sx_def s)
      have "I (sx + 1) (dx + k, dp)"
        unfolding I_def fst_conv snd_conv nxt
      proof (intro conjI allI impI)
        show "dx + k = (sx + 1) * k" using dx by (simp add: algebra_simps)
        show "grid_ok 2 W H P dp" by (rule gd)
      next
        fix X Y' assume h: "0 \<le> X \<and> X < W \<and> 0 \<le> Y' \<and> Y' < H"
        show "load16 dp (Y' * P + X * 2) =
                (if Y' = Y \<and> X0 \<le> X \<and> X < X0 + sx * k + k \<and>
                    load16 sp (srow + 2 * ((X - X0) div k)) \<noteq> Inr key
                 then load16 sp (srow + 2 * ((X - X0) div k))
                 else load16 dp0 (Y' * P + X * 2))"
        proof (cases "X0 + sx * k \<le> X \<and> X < X0 + sx * k + k")
          case True
          then have "load16 sp (srow + 2 * ((X - X0) div k)) = Inr key"
            using cellcol[of X] pix \<open>pix = key\<close> by simp
          then show ?thesis using old[OF h] True by auto
        next
          case False
          then show ?thesis using old[OF h] k0 k by auto
        qed
      qed
      with r show ?thesis by blast
    next
      case False
      have xb: "0 \<le> X0 + sx * k" using c(1) k0 by simp
      have kk: "0 \<le> k" using k by simp
      obtain dp' where dp': "for_up 0 k (blit_up_rep (Y * P + 2 * X0) (X0 + sx * k - X0) pix) dp = Inr dp'"
        "grid_ok 2 W H P dp'"
        "\<And>X Y'. 0 \<le> X \<and> X < W \<and> 0 \<le> Y' \<and> Y' < H \<Longrightarrow>
              load16 dp' (Y' * P + X * 2) =
                (if Y' = Y \<and> X0 + sx * k \<le> X \<and> X < X0 + sx * k + k then Inr pix
                 else load16 dp (Y' * P + X * 2))"
        using blit_up_rep_loop[OF gd kk xb top c(3,4), of X0 pix] by blast
      have r: "blit_up_sx sp srow (Y * P + 2 * X0) key k sx s = Inr (dx + k, dp')"
        using pix False dp'(1) by (simp add: blit_up_sx_def s dx)
      have "I (sx + 1) (dx + k, dp')"
        unfolding I_def fst_conv snd_conv nxt
      proof (intro conjI allI impI)
        show "dx + k = (sx + 1) * k" using dx by (simp add: algebra_simps)
        show "grid_ok 2 W H P dp'" by (rule dp'(2))
      next
        fix X Y' assume h: "0 \<le> X \<and> X < W \<and> 0 \<le> Y' \<and> Y' < H"
        show "load16 dp' (Y' * P + X * 2) =
                (if Y' = Y \<and> X0 \<le> X \<and> X < X0 + sx * k + k \<and>
                    load16 sp (srow + 2 * ((X - X0) div k)) \<noteq> Inr key
                 then load16 sp (srow + 2 * ((X - X0) div k))
                 else load16 dp0 (Y' * P + X * 2))"
        proof (cases "X0 + sx * k \<le> X \<and> X < X0 + sx * k + k")
          case True
          then have "load16 sp (srow + 2 * ((X - X0) div k)) = Inr pix"
            using cellcol[of X] pix by simp
          then show ?thesis using dp'(3)[OF h] old[OF h] True False k0 by auto
        next
          case False
          then show ?thesis using dp'(3)[OF h] old[OF h] k0 k by auto
        qed
      qed
      with r show ?thesis by blast
    qed
  qed
  obtain s' where s': "for_up 0 w (blit_up_sx sp srow (Y * P + 2 * X0) key k) (0, dp0) = Inr s'"
    "I (max 0 w) s'"
    using for_up_rule[of I 0 "(0, dp0)" w "blit_up_sx sp srow (Y * P + 2 * X0) key k", OF init step]
    by blast
  have m: "max 0 w = w" using w by simp
  obtain dx dp where e: "s' = (dx, dp)" by (cases s') auto
  show ?thesis using s' unfolding m I_def e by auto
qed

lemma blit_up_vy_loop:
  assumes g: "grid_ok 2 W H P dp0" and k: "0 < k" and w: "0 \<le> rect_w sr"
    and c: "0 \<le> rect_x dr" "rect_x dr + rect_w sr * k \<le> W"
      "0 \<le> rect_y dr + sy * k" "rect_y dr + sy * k + k \<le> H"
    and src: "\<forall>sx. 0 \<le> sx \<and> sx < rect_w sr \<longrightarrow> (\<exists>v. load16 sp (srow + 2 * sx) = Inr v)"
  shows "\<exists>dp. for_up 0 k (blit_up_vy sp srow sr P dr key k sy) dp0 = Inr dp \<and>
           grid_ok 2 W H P dp \<and>
           (\<forall>X Y. 0 \<le> X \<and> X < W \<and> 0 \<le> Y \<and> Y < H \<longrightarrow>
              load16 dp (Y * P + X * 2) =
                (if rect_y dr + sy * k \<le> Y \<and> Y < rect_y dr + sy * k + k \<and>
                    rect_x dr \<le> X \<and> X < rect_x dr + rect_w sr * k \<and>
                    load16 sp (srow + 2 * ((X - rect_x dr) div k)) \<noteq> Inr key
                 then load16 sp (srow + 2 * ((X - rect_x dr) div k))
                 else load16 dp0 (Y * P + X * 2)))"
proof -
  let ?Yb = "rect_y dr + sy * k" and ?X0 = "rect_x dr" and ?w = "rect_w sr"
  define I where "I = (\<lambda>vy dp. grid_ok 2 W H P dp \<and>
           (\<forall>X Y. 0 \<le> X \<and> X < W \<and> 0 \<le> Y \<and> Y < H \<longrightarrow>
              load16 dp (Y * P + X * 2) =
                (if ?Yb \<le> Y \<and> Y < ?Yb + vy \<and> ?X0 \<le> X \<and> X < ?X0 + ?w * k \<and>
                    load16 sp (srow + 2 * ((X - ?X0) div k)) \<noteq> Inr key
                 then load16 sp (srow + 2 * ((X - ?X0) div k))
                 else load16 dp0 (Y * P + X * 2))))"
  have init: "I 0 dp0" using g by (auto simp: I_def)
  have step: "\<exists>dp'. blit_up_vy sp srow sr P dr key k sy vy dp = Inr dp' \<and> I (vy + 1) dp'"
    if vy: "0 \<le> vy" "vy < k" and inv: "I vy dp" for vy dp
  proof -
    from inv have gd: "grid_ok 2 W H P dp"
      and old: "\<And>X Y. 0 \<le> X \<and> X < W \<and> 0 \<le> Y \<and> Y < H \<Longrightarrow>
              load16 dp (Y * P + X * 2) =
                (if ?Yb \<le> Y \<and> Y < ?Yb + vy \<and> ?X0 \<le> X \<and> X < ?X0 + ?w * k \<and>
                    load16 sp (srow + 2 * ((X - ?X0) div k)) \<noteq> Inr key
                 then load16 sp (srow + 2 * ((X - ?X0) div k))
                 else load16 dp0 (Y * P + X * 2))"
      unfolding I_def by auto
    have cy: "0 \<le> ?Yb + vy" "?Yb + vy < H" using vy c by auto
    obtain dx dp' where dp': "for_up 0 ?w (blit_up_sx sp srow ((?Yb + vy) * P + 2 * ?X0) key k) (0, dp)
         = Inr (dx, dp')"
      "grid_ok 2 W H P dp'"
      "\<And>X Y. 0 \<le> X \<and> X < W \<and> 0 \<le> Y \<and> Y < H \<Longrightarrow>
              load16 dp' (Y * P + X * 2) =
                (if Y = ?Yb + vy \<and> ?X0 \<le> X \<and> X < ?X0 + ?w * k \<and>
                    load16 sp (srow + 2 * ((X - ?X0) div k)) \<noteq> Inr key
                 then load16 sp (srow + 2 * ((X - ?X0) div k))
                 else load16 dp (Y * P + X * 2))"
      using blit_up_sx_loop[OF gd k w c(1,2) cy src, of key] by blast
    have r: "blit_up_vy sp srow sr P dr key k sy vy dp = Inr dp'"
      using dp'(1) by (simp add: blit_up_vy_def Let_def)
    have "I (vy + 1) dp'"
      unfolding I_def
    proof (intro conjI allI impI)
      show "grid_ok 2 W H P dp'" by (rule dp'(2))
    next
      fix X Y assume h: "0 \<le> X \<and> X < W \<and> 0 \<le> Y \<and> Y < H"
      show "load16 dp' (Y * P + X * 2) =
                (if ?Yb \<le> Y \<and> Y < ?Yb + (vy + 1) \<and> ?X0 \<le> X \<and> X < ?X0 + ?w * k \<and>
                    load16 sp (srow + 2 * ((X - ?X0) div k)) \<noteq> Inr key
                 then load16 sp (srow + 2 * ((X - ?X0) div k))
                 else load16 dp0 (Y * P + X * 2))"
        using dp'(3)[OF h] old[OF h] vy by (cases "Y = ?Yb + vy") auto
    qed
    with r show ?thesis by blast
  qed
  obtain dp where dp: "for_up 0 k (blit_up_vy sp srow sr P dr key k sy) dp0 = Inr dp" "I (max 0 k) dp"
    using for_up_rule[of I 0 dp0 k "blit_up_vy sp srow sr P dr key k sy", OF init step] by blast
  have m: "max 0 k = k" using k by simp
  show ?thesis using dp unfolding m I_def by blast
qed

lemma blit_up_loops:
  assumes sg: "grid_ok 2 SW SH spitch sp"
    and sr: "0 \<le> rect_x sr" "0 \<le> rect_y sr" "0 \<le> rect_w sr" "0 \<le> rect_h sr"
      "rect_x sr + rect_w sr \<le> SW" "rect_y sr + rect_h sr \<le> SH"
    and g: "grid_ok 2 W H P dp0" and k: "0 < k"
    and dr: "0 \<le> rect_x dr" "0 \<le> rect_y dr"
      "rect_x dr + rect_w sr * k \<le> W" "rect_y dr + rect_h sr * k \<le> H"
  shows "\<exists>dp. for_up 0 (rect_h sr) (blit_up_sy sp spitch sr P dr key k) dp0 = Inr dp \<and>
           grid_ok 2 W H P dp \<and>
           (\<forall>X Y. 0 \<le> X \<and> X < W \<and> 0 \<le> Y \<and> Y < H \<longrightarrow>
              load16 dp (Y * P + X * 2) =
                (if rect_x dr \<le> X \<and> X < rect_x dr + rect_w sr * k \<and>
                    rect_y dr \<le> Y \<and> Y < rect_y dr + rect_h sr * k \<and>
                    load16 sp ((rect_y sr + (Y - rect_y dr) div k) * spitch
                               + (rect_x sr + (X - rect_x dr) div k) * 2) \<noteq> Inr key
                 then load16 sp ((rect_y sr + (Y - rect_y dr) div k) * spitch
                               + (rect_x sr + (X - rect_x dr) div k) * 2)
                 else load16 dp0 (Y * P + X * 2)))"
proof -
  let ?S = "\<lambda>X Y. load16 sp ((rect_y sr + (Y - rect_y dr) div k) * spitch
                               + (rect_x sr + (X - rect_x dr) div k) * 2)"
  define I where "I = (\<lambda>sy dp. grid_ok 2 W H P dp \<and>
           (\<forall>X Y. 0 \<le> X \<and> X < W \<and> 0 \<le> Y \<and> Y < H \<longrightarrow>
              load16 dp (Y * P + X * 2) =
                (if rect_x dr \<le> X \<and> X < rect_x dr + rect_w sr * k \<and>
                    rect_y dr \<le> Y \<and> Y < rect_y dr + sy * k \<and> ?S X Y \<noteq> Inr key
                 then ?S X Y else load16 dp0 (Y * P + X * 2))))"
  have init: "I 0 dp0" using g by (auto simp: I_def)
  have step: "\<exists>dp'. blit_up_sy sp spitch sr P dr key k sy dp = Inr dp' \<and> I (sy + 1) dp'"
    if sy: "0 \<le> sy" "sy < rect_h sr" and inv: "I sy dp" for sy dp
  proof -
    let ?srow = "(rect_y sr + sy) * spitch + 2 * rect_x sr"
    from inv have gd: "grid_ok 2 W H P dp"
      and old: "\<And>X Y. 0 \<le> X \<and> X < W \<and> 0 \<le> Y \<and> Y < H \<Longrightarrow>
              load16 dp (Y * P + X * 2) =
                (if rect_x dr \<le> X \<and> X < rect_x dr + rect_w sr * k \<and>
                    rect_y dr \<le> Y \<and> Y < rect_y dr + sy * k \<and> ?S X Y \<noteq> Inr key
                 then ?S X Y else load16 dp0 (Y * P + X * 2))"
      unfolding I_def by auto
    have k0: "0 \<le> sy * k" using sy k by simp
    have "(sy + 1) * k \<le> rect_h sr * k" using sy k by (intro mult_right_mono) auto
    then have top: "rect_y dr + sy * k + k \<le> H" using dr(4) by (simp add: algebra_simps)
    have bot: "0 \<le> rect_y dr + sy * k" using dr(2) k0 by simp
    have off: "?srow + 2 * c = (rect_y sr + sy) * spitch + (rect_x sr + c) * 2" for c
      by (simp add: algebra_simps)
    have src: "\<forall>sx. 0 \<le> sx \<and> sx < rect_w sr \<longrightarrow> (\<exists>v. load16 sp (?srow + 2 * sx) = Inr v)"
    proof (intro allI impI)
      fix sx assume "0 \<le> sx \<and> sx < rect_w sr"
      then have "0 \<le> rect_x sr + sx" "rect_x sr + sx < SW" "0 \<le> rect_y sr + sy" "rect_y sr + sy < SH"
        using sr sy by auto
      from load16_ok[OF sg this] show "\<exists>v. load16 sp (?srow + 2 * sx) = Inr v"
        unfolding off .
    qed
    obtain dp' where dp': "for_up 0 k (blit_up_vy sp ?srow sr P dr key k sy) dp = Inr dp'"
      "grid_ok 2 W H P dp'"
      "\<And>X Y. 0 \<le> X \<and> X < W \<and> 0 \<le> Y \<and> Y < H \<Longrightarrow>
              load16 dp' (Y * P + X * 2) =
                (if rect_y dr + sy * k \<le> Y \<and> Y < rect_y dr + sy * k + k \<and>
                    rect_x dr \<le> X \<and> X < rect_x dr + rect_w sr * k \<and>
                    load16 sp (?srow + 2 * ((X - rect_x dr) div k)) \<noteq> Inr key
                 then load16 sp (?srow + 2 * ((X - rect_x dr) div k))
                 else load16 dp (Y * P + X * 2))"
      using blit_up_vy_loop[OF gd k sr(3) dr(1,3) bot top src, of key] by blast
    have r: "blit_up_sy sp spitch sr P dr key k sy dp = Inr dp'"
      using dp'(1) by (simp add: blit_up_sy_def Let_def)
    have nxt: "rect_y dr + (sy + 1) * k = rect_y dr + sy * k + k" by (simp add: algebra_simps)
    have "I (sy + 1) dp'"
      unfolding I_def nxt
    proof (intro conjI allI impI)
      show "grid_ok 2 W H P dp'" by (rule dp'(2))
    next
      fix X Y assume h: "0 \<le> X \<and> X < W \<and> 0 \<le> Y \<and> Y < H"
      show "load16 dp' (Y * P + X * 2) =
                (if rect_x dr \<le> X \<and> X < rect_x dr + rect_w sr * k \<and>
                    rect_y dr \<le> Y \<and> Y < rect_y dr + sy * k + k \<and> ?S X Y \<noteq> Inr key
                 then ?S X Y else load16 dp0 (Y * P + X * 2))"
      proof (cases "rect_y dr + sy * k \<le> Y \<and> Y < rect_y dr + sy * k + k")
        case True
        then have "(Y - rect_y dr) div k = sy" by (intro div_cell[OF k]) auto
        then have e: "?S X Y = load16 sp (?srow + 2 * ((X - rect_x dr) div k))"
          unfolding off by simp
        have o: "load16 dp (Y * P + X * 2) = load16 dp0 (Y * P + X * 2)"
          using old[OF h] True by auto
        have y: "rect_y dr \<le> Y" using True k0 by linarith
        show ?thesis unfolding e using dp'(3)[OF h] o True y by auto
      next
        case False
        then show ?thesis using dp'(3)[OF h] old[OF h] k0 k by auto
      qed
    qed
    with r show ?thesis by blast
  qed
  obtain dp where dp: "for_up 0 (rect_h sr) (blit_up_sy sp spitch sr P dr key k) dp0 = Inr dp"
    "I (max 0 (rect_h sr)) dp"
    using for_up_rule[of I 0 dp0 "rect_h sr" "blit_up_sy sp spitch sr P dr key k", OF init step]
    by blast
  have m: "max 0 (rect_h sr) = rect_h sr" using sr by simp
  show ?thesis using dp unfolding m I_def by blast
qed

lemma blit_half_sx_loop:
  assumes g: "grid_ok 2 W H P dp0" and w: "0 \<le> w"
    and c: "0 \<le> X0" "X0 + (w + 1) div 2 \<le> W" "0 \<le> Y" "Y < H"
    and src: "\<forall>sx. 0 \<le> sx \<and> sx < w \<longrightarrow> (\<exists>v. load16 sp (srow + 2 * sx) = Inr v)"
  shows "\<exists>dx dp. for_up2 0 w (blit_half_sx sp srow (Y * P + 2 * X0) key) (0, dp0) = Inr (dx, dp) \<and>
           grid_ok 2 W H P dp \<and>
           (\<forall>X Y'. 0 \<le> X \<and> X < W \<and> 0 \<le> Y' \<and> Y' < H \<longrightarrow>
              load16 dp (Y' * P + X * 2) =
                (if Y' = Y \<and> X0 \<le> X \<and> X < X0 + (w + 1) div 2 \<and>
                    load16 sp (srow + 2 * (2 * (X - X0))) \<noteq> Inr key
                 then load16 sp (srow + 2 * (2 * (X - X0)))
                 else load16 dp0 (Y' * P + X * 2)))"
proof -
  define I where "I = (\<lambda>i (s :: int \<times> Uint8 list). 2 * fst s = i \<and> grid_ok 2 W H P (snd s) \<and>
           (\<forall>X Y'. 0 \<le> X \<and> X < W \<and> 0 \<le> Y' \<and> Y' < H \<longrightarrow>
              load16 (snd s) (Y' * P + X * 2) =
                (if Y' = Y \<and> X0 \<le> X \<and> X < X0 + fst s \<and>
                    load16 sp (srow + 2 * (2 * (X - X0))) \<noteq> Inr key
                 then load16 sp (srow + 2 * (2 * (X - X0)))
                 else load16 dp0 (Y' * P + X * 2))))"
  have init: "I 0 (0, dp0)" using g by (auto simp: I_def)
  have step: "\<exists>s'. blit_half_sx sp srow (Y * P + 2 * X0) key i s = Inr s' \<and> I (i + 2) s'"
    if i: "0 \<le> i" "i < w" and inv: "I i s" for i s
  proof -
    obtain dx dp where s: "s = (dx, dp)" by (cases s) auto
    from inv have dx: "2 * dx = i" and gd: "grid_ok 2 W H P dp"
      and old: "\<And>X Y'. 0 \<le> X \<and> X < W \<and> 0 \<le> Y' \<and> Y' < H \<Longrightarrow>
              load16 dp (Y' * P + X * 2) =
                (if Y' = Y \<and> X0 \<le> X \<and> X < X0 + dx \<and>
                    load16 sp (srow + 2 * (2 * (X - X0))) \<noteq> Inr key
                 then load16 sp (srow + 2 * (2 * (X - X0)))
                 else load16 dp0 (Y' * P + X * 2))"
      unfolding I_def s by auto
    obtain pix where pix: "load16 sp (srow + 2 * i) = Inr pix" using src i by blast
    have dx0: "0 \<le> dx" using dx i by linarith
    have "dx < (w + 1) div 2" using dx i by linarith
    then have cx: "0 \<le> X0 + dx" "X0 + dx < W" using c dx0 by auto
    have here: "load16 sp (srow + 2 * (2 * (X0 + dx - X0))) = Inr pix"
      using pix dx by simp
    show ?thesis
    proof (cases "pix = key")
      case True
      have r: "blit_half_sx sp srow (Y * P + 2 * X0) key i s = Inr (dx + 1, dp)"
        using pix True by (simp add: blit_half_sx_def s)
      have "I (i + 2) (dx + 1, dp)"
        unfolding I_def fst_conv snd_conv
      proof (intro conjI allI impI)
        show "2 * (dx + 1) = i + 2" using dx by simp
        show "grid_ok 2 W H P dp" by (rule gd)
      next
        fix X Y' assume h: "0 \<le> X \<and> X < W \<and> 0 \<le> Y' \<and> Y' < H"
        show "load16 dp (Y' * P + X * 2) =
                (if Y' = Y \<and> X0 \<le> X \<and> X < X0 + (dx + 1) \<and>
                    load16 sp (srow + 2 * (2 * (X - X0))) \<noteq> Inr key
                 then load16 sp (srow + 2 * (2 * (X - X0)))
                 else load16 dp0 (Y' * P + X * 2))"
        proof (cases "X = X0 + dx")
          case True
          show ?thesis unfolding True using old[OF h] here \<open>pix = key\<close> True by auto
        next
          case False
          then show ?thesis using old[OF h] by auto
        qed
      qed
      with r show ?thesis by blast
    next
      case False
      obtain dp' where dp': "store16 dp (Y * P + (X0 + dx) * 2) pix = Inr dp'" "grid_ok 2 W H P dp'"
        "\<And>X Y'. 0 \<le> X \<and> X < W \<and> 0 \<le> Y' \<and> Y' < H \<Longrightarrow>
              load16 dp' (Y' * P + X * 2) =
                (if X = X0 + dx \<and> Y' = Y then Inr pix else load16 dp (Y' * P + X * 2))"
        using store16_cell[OF gd cx c(3,4), of pix] by blast
      have off: "Y * P + 2 * X0 + 2 * dx = Y * P + (X0 + dx) * 2" by (simp add: algebra_simps)
      have "store16 dp (Y * P + 2 * X0 + 2 * dx) pix = Inr dp'" unfolding off by (rule dp'(1))
      then have r: "blit_half_sx sp srow (Y * P + 2 * X0) key i s = Inr (dx + 1, dp')"
        using pix False by (simp add: blit_half_sx_def s)
      have "I (i + 2) (dx + 1, dp')"
        unfolding I_def fst_conv snd_conv
      proof (intro conjI allI impI)
        show "2 * (dx + 1) = i + 2" using dx by simp
        show "grid_ok 2 W H P dp'" by (rule dp'(2))
      next
        fix X Y' assume h: "0 \<le> X \<and> X < W \<and> 0 \<le> Y' \<and> Y' < H"
        show "load16 dp' (Y' * P + X * 2) =
                (if Y' = Y \<and> X0 \<le> X \<and> X < X0 + (dx + 1) \<and>
                    load16 sp (srow + 2 * (2 * (X - X0))) \<noteq> Inr key
                 then load16 sp (srow + 2 * (2 * (X - X0)))
                 else load16 dp0 (Y' * P + X * 2))"
        proof (cases "X = X0 + dx")
          case True
          show ?thesis unfolding True using dp'(3)[OF h] old[OF h] here False True dx0 by auto
        next
          case False
          then show ?thesis using dp'(3)[OF h] old[OF h] by auto
        qed
      qed
      with r show ?thesis by blast
    qed
  qed
  obtain s' where s': "for_up2 0 w (blit_half_sx sp srow (Y * P + 2 * X0) key) (0, dp0) = Inr s'"
    "I (0 + 2 * max 0 ((w - 0 + 1) div 2)) s'"
    using for_up2_rule[of I 0 "(0, dp0)" w "blit_half_sx sp srow (Y * P + 2 * X0) key", OF init step]
    by blast
  obtain dx dp where e: "s' = (dx, dp)" by (cases s') auto
  have "2 * dx = 2 * max 0 ((w + 1) div 2)" using s'(2) unfolding I_def e by simp
  then have d: "dx = (w + 1) div 2" using w by simp
  show ?thesis using s' unfolding I_def e d by auto
qed

lemma blit_half_loops:
  assumes sg: "grid_ok 2 SW SH spitch sp"
    and sr: "0 \<le> rect_x sr" "0 \<le> rect_y sr" "0 \<le> rect_w sr" "0 \<le> rect_h sr"
      "rect_x sr + rect_w sr \<le> SW" "rect_y sr + rect_h sr \<le> SH"
    and g: "grid_ok 2 W H P dp0"
    and dr: "0 \<le> rect_x dr" "0 \<le> rect_y dr"
      "rect_x dr + (rect_w sr + 1) div 2 \<le> W" "rect_y dr + (rect_h sr + 1) div 2 \<le> H"
  shows "\<exists>dp. for_up2 0 (rect_h sr) (blit_half_sy sp spitch sr P dr key) dp0 = Inr dp \<and>
           grid_ok 2 W H P dp \<and>
           (\<forall>X Y. 0 \<le> X \<and> X < W \<and> 0 \<le> Y \<and> Y < H \<longrightarrow>
              load16 dp (Y * P + X * 2) =
                (if rect_x dr \<le> X \<and> X < rect_x dr + (rect_w sr + 1) div 2 \<and>
                    rect_y dr \<le> Y \<and> Y < rect_y dr + (rect_h sr + 1) div 2 \<and>
                    load16 sp ((rect_y sr + 2 * (Y - rect_y dr)) * spitch
                               + (rect_x sr + 2 * (X - rect_x dr)) * 2) \<noteq> Inr key
                 then load16 sp ((rect_y sr + 2 * (Y - rect_y dr)) * spitch
                               + (rect_x sr + 2 * (X - rect_x dr)) * 2)
                 else load16 dp0 (Y * P + X * 2)))"
proof -
  let ?S = "\<lambda>X Y. load16 sp ((rect_y sr + 2 * (Y - rect_y dr)) * spitch
                               + (rect_x sr + 2 * (X - rect_x dr)) * 2)"
  let ?wd = "(rect_w sr + 1) div 2"
  define I where "I = (\<lambda>i dp. even i \<and> grid_ok 2 W H P dp \<and>
           (\<forall>X Y. 0 \<le> X \<and> X < W \<and> 0 \<le> Y \<and> Y < H \<longrightarrow>
              load16 dp (Y * P + X * 2) =
                (if rect_x dr \<le> X \<and> X < rect_x dr + ?wd \<and>
                    rect_y dr \<le> Y \<and> Y < rect_y dr + i div 2 \<and> ?S X Y \<noteq> Inr key
                 then ?S X Y else load16 dp0 (Y * P + X * 2))))"
  have init: "I 0 dp0" using g by (auto simp: I_def)
  have step: "\<exists>dp'. blit_half_sy sp spitch sr P dr key i dp = Inr dp' \<and> I (i + 2) dp'"
    if i: "0 \<le> i" "i < rect_h sr" and inv: "I i dp" for i dp
  proof -
    let ?srow = "(rect_y sr + i) * spitch + 2 * rect_x sr"
    let ?Y = "rect_y dr + i div 2"
    from inv have ev: "even i" and gd: "grid_ok 2 W H P dp"
      and old: "\<And>X Y. 0 \<le> X \<and> X < W \<and> 0 \<le> Y \<and> Y < H \<Longrightarrow>
              load16 dp (Y * P + X * 2) =
                (if rect_x dr \<le> X \<and> X < rect_x dr + ?wd \<and>
                    rect_y dr \<le> Y \<and> Y < rect_y dr + i div 2 \<and> ?S X Y \<noteq> Inr key
                 then ?S X Y else load16 dp0 (Y * P + X * 2))"
      unfolding I_def by auto
    have i2: "2 * (i div 2) = i" using ev by simp
    have "i div 2 < (rect_h sr + 1) div 2" using i i2 by linarith
    then have cy: "0 \<le> ?Y" "?Y < H" using dr i i2 by auto
    have off: "?srow + 2 * c = (rect_y sr + i) * spitch + (rect_x sr + c) * 2" for c
      by (simp add: algebra_simps)
    have src: "\<forall>sx. 0 \<le> sx \<and> sx < rect_w sr \<longrightarrow> (\<exists>v. load16 sp (?srow + 2 * sx) = Inr v)"
    proof (intro allI impI)
      fix sx assume "0 \<le> sx \<and> sx < rect_w sr"
      then have "0 \<le> rect_x sr + sx" "rect_x sr + sx < SW" "0 \<le> rect_y sr + i" "rect_y sr + i < SH"
        using sr i by auto
      from load16_ok[OF sg this] show "\<exists>v. load16 sp (?srow + 2 * sx) = Inr v"
        unfolding off .
    qed
    obtain dx dp' where dp':
      "for_up2 0 (rect_w sr) (blit_half_sx sp ?srow (?Y * P + 2 * rect_x dr) key) (0, dp) = Inr (dx, dp')"
      "grid_ok 2 W H P dp'"
      "\<And>X Y. 0 \<le> X \<and> X < W \<and> 0 \<le> Y \<and> Y < H \<Longrightarrow>
              load16 dp' (Y * P + X * 2) =
                (if Y = ?Y \<and> rect_x dr \<le> X \<and> X < rect_x dr + ?wd \<and>
                    load16 sp (?srow + 2 * (2 * (X - rect_x dr))) \<noteq> Inr key
                 then load16 sp (?srow + 2 * (2 * (X - rect_x dr)))
                 else load16 dp (Y * P + X * 2))"
      using blit_half_sx_loop[OF gd sr(3) dr(1,3) cy src, of key] by blast
    have r: "blit_half_sy sp spitch sr P dr key i dp = Inr dp'"
      using dp'(1) by (simp add: blit_half_sy_def Let_def drop_bit_eq_div)
    have nxt: "(i + 2) div 2 = i div 2 + 1" by simp
    have "I (i + 2) dp'"
      unfolding I_def nxt
    proof (intro conjI allI impI)
      show "even (i + 2)" using ev by simp
      show "grid_ok 2 W H P dp'" by (rule dp'(2))
    next
      fix X Y assume h: "0 \<le> X \<and> X < W \<and> 0 \<le> Y \<and> Y < H"
      show "load16 dp' (Y * P + X * 2) =
                (if rect_x dr \<le> X \<and> X < rect_x dr + ?wd \<and>
                    rect_y dr \<le> Y \<and> Y < rect_y dr + (i div 2 + 1) \<and> ?S X Y \<noteq> Inr key
                 then ?S X Y else load16 dp0 (Y * P + X * 2))"
      proof (cases "Y = ?Y")
        case True
        have "rect_y sr + 2 * (Y - rect_y dr) = rect_y sr + i" unfolding True using i2 by simp
        then have e: "?S X Y = load16 sp (?srow + 2 * (2 * (X - rect_x dr)))"
          unfolding off by simp
        have o: "load16 dp (Y * P + X * 2) = load16 dp0 (Y * P + X * 2)"
          using old[OF h] True by auto
        have y: "rect_y dr \<le> Y" "Y < rect_y dr + (i div 2 + 1)" using True i i2 by linarith+
        show ?thesis unfolding e using dp'(3)[OF h] o True y by auto
      next
        case False
        then show ?thesis using dp'(3)[OF h] old[OF h] by auto
      qed
    qed
    with r show ?thesis by blast
  qed
  obtain dp where dp: "for_up2 0 (rect_h sr) (blit_half_sy sp spitch sr P dr key) dp0 = Inr dp"
    "I (0 + 2 * max 0 ((rect_h sr - 0 + 1) div 2)) dp"
    using for_up2_rule[of I 0 dp0 "rect_h sr" "blit_half_sy sp spitch sr P dr key", OF init step]
    by blast
  have m: "(0 + 2 * max 0 ((rect_h sr - 0 + 1) div 2)) div 2 = (rect_h sr + 1) div 2"
    using sr(4) by simp
  show ?thesis using dp unfolding I_def m by blast
qed

section \<open>Fast blit: C1 and C2\<close>

lemma fast_ready_grids:
  assumes "fast_ready P src dst"
  shows "grid_ok 2 (surf_w src) (surf_h src) (surf_pitch src) (surf_pixels src)"
    and "grid_ok 2 (surf_w dst) (surf_h dst) (surf_pitch dst) (surf_pixels dst)"
  using assms by (auto simp: fast_ready_def surface_ok_def surface_bpp_def)

lemma blit_fast_pixels:
  assumes rdy: "fast_ready P src dst"
    and sc: "scale = 2 \<or> scale = 3 \<or> scale = 4 \<or> scale = 0.5"
    and sr: "rect_in_surface sr src"
    and dr: "rect_in_surface (fast_region sr dr scale) dst"
  shows "\<exists>dp. blit_colorkey_scale_fast_RGB565 P src sr dst dr key scale
                = Inr (True, dst\<lparr>surf_pixels := dp\<rparr>) \<and>
           surface_ok P (dst\<lparr>surf_pixels := dp\<rparr>) \<and>
           (\<forall>X Y. 0 \<le> X \<and> X < surf_w dst \<and> 0 \<le> Y \<and> Y < surf_h dst \<longrightarrow>
              pixel16 (dst\<lparr>surf_pixels := dp\<rparr>) X Y =
                (if in_rect (fast_region sr dr scale) X Y \<and>
                    fast_sample src sr dr scale X Y \<noteq> Inr key
                 then fast_sample src sr dr scale X Y
                 else pixel16 dst X Y))"
proof -
  note sg = fast_ready_grids(1)[OF rdy] and dg = fast_ready_grids(2)[OF rdy]
  from rdy obtain sd dd where fmt:
    "SDL_GetPixelFormatDetails P (surf_format src) = Some sd"
    "SDL_GetPixelFormatDetails P (surf_format dst) = Some dd"
    "pfd_bytes_per_pixel sd = 2" "pfd_bytes_per_pixel dd = 2"
    and lk: "\<not> SDL_LockSurface P src < 0" "\<not> SDL_LockSurface P dst < 0"
    unfolding fast_ready_def by blast
  from sr have s: "0 \<le> rect_x sr" "0 \<le> rect_y sr" "0 \<le> rect_w sr" "0 \<le> rect_h sr"
    "rect_x sr + rect_w sr \<le> surf_w src" "rect_y sr + rect_h sr \<le> surf_h src"
    by (simp_all add: rect_in_surface_def)
  have bppd: "surface_bpp P (dst\<lparr>surf_pixels := dp\<rparr>) = 2" for dp
    using fmt by (simp add: surface_bpp_def)
  show ?thesis
  proof (cases "scale = 0.5")
    case True
    then have hh: "scale * 2 = 1" by simp
    from dr have d: "0 \<le> rect_x dr" "0 \<le> rect_y dr"
      "rect_x dr + (rect_w sr + 1) div 2 \<le> surf_w dst"
      "rect_y dr + (rect_h sr + 1) div 2 \<le> surf_h dst"
      by (simp_all add: rect_in_surface_def fast_region_def fast_extent_def hh)
    obtain dp where dp:
      "for_up2 0 (rect_h sr) (blit_half_sy (surf_pixels src) (surf_pitch src) sr (surf_pitch dst) dr key)
         (surf_pixels dst) = Inr dp"
      "grid_ok 2 (surf_w dst) (surf_h dst) (surf_pitch dst) dp"
      "\<And>X Y. 0 \<le> X \<and> X < surf_w dst \<and> 0 \<le> Y \<and> Y < surf_h dst \<Longrightarrow>
         load16 dp (Y * surf_pitch dst + X * 2) =
           (if rect_x dr \<le> X \<and> X < rect_x dr + (rect_w sr + 1) div 2 \<and>
               rect_y dr \<le> Y \<and> Y < rect_y dr + (rect_h sr + 1) div 2 \<and>
               load16 (surf_pixels src) ((rect_y sr + 2 * (Y - rect_y dr)) * surf_pitch src
                               + (rect_x sr + 2 * (X - rect_x dr)) * 2) \<noteq> Inr key
            then load16 (surf_pixels src) ((rect_y sr + 2 * (Y - rect_y dr)) * surf_pitch src
                               + (rect_x sr + 2 * (X - rect_x dr)) * 2)
            else load16 (surf_pixels dst) (Y * surf_pitch dst + X * 2))"
      using blit_half_loops[OF sg s dg d, of key] by blast
    have r: "blit_colorkey_scale_fast_RGB565 P src sr dst dr key scale
                = Inr (True, dst\<lparr>surf_pixels := dp\<rparr>)"
      using fmt lk dp(1) hh True by (simp add: blit_colorkey_scale_fast_RGB565_def Let_def)
    have ok: "surface_ok P (dst\<lparr>surf_pixels := dp\<rparr>)"
      using dp(2) by (simp add: surface_ok_def bppd)
    have px: "pixel16 (dst\<lparr>surf_pixels := dp\<rparr>) X Y =
                (if in_rect (fast_region sr dr scale) X Y \<and>
                    fast_sample src sr dr scale X Y \<noteq> Inr key
                 then fast_sample src sr dr scale X Y
                 else pixel16 dst X Y)"
      if h: "0 \<le> X \<and> X < surf_w dst \<and> 0 \<le> Y \<and> Y < surf_h dst" for X Y
      using dp(3)[OF h]
      by (simp add: pixel16_def fast_sample_def fast_source_def in_rect_def fast_region_def
          fast_extent_def hh)
    show ?thesis using r ok px by blast
  next
    case False
    then have nh: "scale * 2 \<noteq> 1" by auto
    define k where "k = fast_iscale scale"
    have k: "0 < k" using sc False by (auto simp: k_def fast_iscale_def)
    have sel: "(if scale = 2 then Some (2, False)
                else if scale = 3 then Some (3, False)
                else if scale = 4 then Some (4, False)
                else if scale = 0.5 then Some (0, True)
                else None) = Some (k, False)"
      using sc False by (auto simp: k_def fast_iscale_def)
    from dr have d: "0 \<le> rect_x dr" "0 \<le> rect_y dr"
      "rect_x dr + rect_w sr * k \<le> surf_w dst"
      "rect_y dr + rect_h sr * k \<le> surf_h dst"
      by (simp_all add: rect_in_surface_def fast_region_def fast_extent_def nh k_def)
    obtain dp where dp:
      "for_up 0 (rect_h sr) (blit_up_sy (surf_pixels src) (surf_pitch src) sr (surf_pitch dst) dr key k)
         (surf_pixels dst) = Inr dp"
      "grid_ok 2 (surf_w dst) (surf_h dst) (surf_pitch dst) dp"
      "\<And>X Y. 0 \<le> X \<and> X < surf_w dst \<and> 0 \<le> Y \<and> Y < surf_h dst \<Longrightarrow>
         load16 dp (Y * surf_pitch dst + X * 2) =
           (if rect_x dr \<le> X \<and> X < rect_x dr + rect_w sr * k \<and>
               rect_y dr \<le> Y \<and> Y < rect_y dr + rect_h sr * k \<and>
               load16 (surf_pixels src) ((rect_y sr + (Y - rect_y dr) div k) * surf_pitch src
                               + (rect_x sr + (X - rect_x dr) div k) * 2) \<noteq> Inr key
            then load16 (surf_pixels src) ((rect_y sr + (Y - rect_y dr) div k) * surf_pitch src
                               + (rect_x sr + (X - rect_x dr) div k) * 2)
            else load16 (surf_pixels dst) (Y * surf_pitch dst + X * 2))"
      using blit_up_loops[OF sg s dg k d, of key] by blast
    have r: "blit_colorkey_scale_fast_RGB565 P src sr dst dr key scale
                = Inr (True, dst\<lparr>surf_pixels := dp\<rparr>)"
      using fmt lk dp(1) unfolding blit_colorkey_scale_fast_RGB565_def sel
      by (simp add: Let_def)
    have ok: "surface_ok P (dst\<lparr>surf_pixels := dp\<rparr>)"
      using dp(2) by (simp add: surface_ok_def bppd)
    have px: "pixel16 (dst\<lparr>surf_pixels := dp\<rparr>) X Y =
                (if in_rect (fast_region sr dr scale) X Y \<and>
                    fast_sample src sr dr scale X Y \<noteq> Inr key
                 then fast_sample src sr dr scale X Y
                 else pixel16 dst X Y)"
      if h: "0 \<le> X \<and> X < surf_w dst \<and> 0 \<le> Y \<and> Y < surf_h dst" for X Y
      using dp(3)[OF h]
      by (simp add: pixel16_def fast_sample_def fast_source_def in_rect_def fast_region_def
          fast_extent_def nh k_def)
    show ?thesis using r ok px by blast
  qed
qed


lemma load16_replicate:
  assumes "0 \<le> off" "off + 2 \<le> int n"
  shows "load16 (replicate n b) off = Inr (word_cat b b)"
proof -
  have "min 2 (n - nat off) = 2" using assms by auto
  then have "take 2 (drop (nat off) (replicate n b)) = [b, b]"
    by (simp add: numeral_2_eq_2)
  then show ?thesis using assms by (simp add: load16_def load_bytes_def in_range_def)
qed

lemma fast_extent_simps:
  "fast_extent 2 n = n * 2" "fast_extent 3 n = n * 3" "fast_extent 4 n = n * 4"
  "fast_extent 0.5 n = (n + 1) div 2"
  by (simp_all add: fast_extent_def fast_iscale_def)

lemma fast_source_simps:
  "fast_source 2 d = d div 2" "fast_source 3 d = d div 3" "fast_source 4 d = d div 4"
  "fast_source 0.5 d = 2 * d"
  by (simp_all add: fast_source_def fast_iscale_def)

lemma fast_up_cell:
  fixes k sx n i x0 :: int
  assumes k: "0 < k" and r: "0 \<le> sx" "sx < n" "0 \<le> i" "i < k"
  shows "x0 \<le> x0 + sx * k + i" "x0 + sx * k + i < x0 + n * k" "(x0 + sx * k + i - x0) div k = sx"
proof -
  have a: "0 \<le> sx * k" using k r by simp
  have "(sx + 1) * k \<le> n * k" using k r by (intro mult_right_mono) auto
  then have b: "sx * k + k \<le> n * k" by (simp add: algebra_simps)
  show "x0 \<le> x0 + sx * k + i" using a r by simp
  show "x0 + sx * k + i < x0 + n * k" using b r by simp
  show "(x0 + sx * k + i - x0) div k = sx" using r by (intro div_cell[OF k]) auto
qed

lemma fast_half_cell:
  fixes sx n x0 :: int
  assumes r: "0 \<le> sx" "sx < n" "even sx"
  shows "x0 \<le> x0 + sx div 2" "x0 + sx div 2 < x0 + (n + 1) div 2" "2 * (x0 + sx div 2 - x0) = sx"
  using r by auto

lemma two_pixels_pixel16: "pixel16 two_pixels 0 0 = Inr 513" "pixel16 two_pixels 1 0 = Inr 1027"
  by (simp_all add: pixel16_def two_pixels_def load16_def load_bytes_def in_range_def word_cat_eq)

lemma two_pixels_fast_ready: "fast_ready packed_platform two_pixels example_window"
  by (simp add: fast_ready_def packed_platform_def two_pixels_def example_window_def surface_ok_def
      surface_bpp_def grid_ok_def)

lemma example_window_pixel16:
  "0 \<le> X \<Longrightarrow> X < 720 \<Longrightarrow> 0 \<le> Y \<Longrightarrow> Y < 720 \<Longrightarrow> pixel16 example_window X Y = Inr 0"
  by (simp add: pixel16_def example_window_def load16_replicate word_cat_eq)

lemma fast_scale_of_int:
  assumes "scale = 2 \<or> scale = 3 \<or> scale = 4 \<or> scale = 0.5" "scale = of_int k"
  shows "k = fast_iscale scale" "0 < k" "scale \<noteq> 0.5"
proof -
  have "scale \<noteq> 0.5"
  proof
    assume "scale = 0.5"
    then have "of_int (2 * k) = (1::real)" using assms(2) by simp
    then have "2 * k = 1" by (simp only: of_int_eq_1_iff)
    then show False by presburger
  qed
  then show "scale \<noteq> 0.5" .
  have "of_int k = (2::real) \<or> of_int k = (3::real) \<or> of_int k = (4::real)"
    using assms \<open>scale \<noteq> 0.5\<close> by auto
  then have "k = 2 \<or> k = 3 \<or> k = 4" by (simp only: of_int_eq_numeral_iff)
  then show "k = fast_iscale scale" "0 < k" using assms(2) by (auto simp: fast_iscale_def)
qed

lemma pixel16_ok:
  assumes "grid_ok 2 (surf_w s) (surf_h s) (surf_pitch s) (surf_pixels s)"
    and "rect_in_surface r s" "0 \<le> sx" "sx < rect_w r" "0 \<le> sy" "sy < rect_h r"
  shows "\<exists>v. pixel16 s (rect_x r + sx) (rect_y r + sy) = Inr v"
proof -
  have "0 \<le> rect_x r + sx" "rect_x r + sx < surf_w s" "0 \<le> rect_y r + sy" "rect_y r + sy < surf_h s"
    using assms(2-) by (auto simp: rect_in_surface_def)
  from load16_ok[OF assms(1) this] show ?thesis by (simp add: pixel16_def)
qed

lemma blit_fast_cell_up:
  assumes sc: "scale = 2 \<or> scale = 3 \<or> scale = 4 \<or> scale = 0.5" and k: "scale = of_int k"
    and dr: "rect_in_surface (fast_region sr dr scale) dst"
    and r: "0 \<le> sx" "sx < rect_w sr" "0 \<le> sy" "sy < rect_h sr" "0 \<le> i" "i < k" "0 \<le> j" "j < k"
  shows "0 \<le> rect_x dr + sx * k + i \<and> rect_x dr + sx * k + i < surf_w dst \<and>
         0 \<le> rect_y dr + sy * k + j \<and> rect_y dr + sy * k + j < surf_h dst"
    and "in_rect (fast_region sr dr scale) (rect_x dr + sx * k + i) (rect_y dr + sy * k + j)"
    and "fast_sample src sr dr scale (rect_x dr + sx * k + i) (rect_y dr + sy * k + j)
           = pixel16 src (rect_x sr + sx) (rect_y sr + sy)"
proof -
  note f = fast_scale_of_int[OF sc k]
  have ext: "fast_extent scale n = n * k" "fast_source scale d = d div k" for n d
    using f by (simp_all add: fast_extent_def fast_source_def)
  note cx = fast_up_cell[OF f(2) r(1,2,5,6), of "rect_x dr"]
  note cy = fast_up_cell[OF f(2) r(3,4,7,8), of "rect_y dr"]
  show inr: "in_rect (fast_region sr dr scale) (rect_x dr + sx * k + i) (rect_y dr + sy * k + j)"
    using cx(1,2) cy(1,2) by (simp add: in_rect_def fast_region_def ext)
  show "0 \<le> rect_x dr + sx * k + i \<and> rect_x dr + sx * k + i < surf_w dst \<and>
         0 \<le> rect_y dr + sy * k + j \<and> rect_y dr + sy * k + j < surf_h dst"
    using inr dr by (auto simp: in_rect_def rect_in_surface_def)
  show "fast_sample src sr dr scale (rect_x dr + sx * k + i) (rect_y dr + sy * k + j)
           = pixel16 src (rect_x sr + sx) (rect_y sr + sy)"
    unfolding fast_sample_def ext cx(3) cy(3) ..
qed

lemma blit_fast_cell_half:
  assumes sc: "scale = 0.5"
    and dr: "rect_in_surface (fast_region sr dr scale) dst"
    and r: "0 \<le> sx" "sx < rect_w sr" "0 \<le> sy" "sy < rect_h sr" "even sx" "even sy"
  shows "0 \<le> rect_x dr + sx div 2 \<and> rect_x dr + sx div 2 < surf_w dst \<and>
         0 \<le> rect_y dr + sy div 2 \<and> rect_y dr + sy div 2 < surf_h dst"
    and "in_rect (fast_region sr dr scale) (rect_x dr + sx div 2) (rect_y dr + sy div 2)"
    and "fast_sample src sr dr scale (rect_x dr + sx div 2) (rect_y dr + sy div 2)
           = pixel16 src (rect_x sr + sx) (rect_y sr + sy)"
proof -
  have ext: "fast_extent scale n = (n + 1) div 2" "fast_source scale d = 2 * d" for n d
    using sc by (simp_all add: fast_extent_def fast_source_def)
  note cx = fast_half_cell[OF r(1,2,5), of "rect_x dr"]
  note cy = fast_half_cell[OF r(3,4,6), of "rect_y dr"]
  show inr: "in_rect (fast_region sr dr scale) (rect_x dr + sx div 2) (rect_y dr + sy div 2)"
    using cx(1,2) cy(1,2) by (simp add: in_rect_def fast_region_def ext)
  show "0 \<le> rect_x dr + sx div 2 \<and> rect_x dr + sx div 2 < surf_w dst \<and>
         0 \<le> rect_y dr + sy div 2 \<and> rect_y dr + sy div 2 < surf_h dst"
    using inr dr by (auto simp: in_rect_def rect_in_surface_def)
  show "fast_sample src sr dr scale (rect_x dr + sx div 2) (rect_y dr + sy div 2)
           = pixel16 src (rect_x sr + sx) (rect_y sr + sy)"
    unfolding fast_sample_def ext cx(3) cy(3) ..
qed

text \<open>
  C1: for a scale of the fast path, two surfaces of two bytes per pixel, rectangles inside
  their surfaces and no source pixel of the source rectangle equal to the colorkey,
  \<open>blit_colorkey_scale_fast_RGB565\<close> returns true, and afterwards, for an upscale factor \<open>k\<close>,
  the destination pixel \<open>(dr.x + sx*k + i, dr.y + sy*k + j)\<close> equals the source pixel
  \<open>(sr.x + sx, sr.y + sy)\<close> for all \<open>0 \<le> i, j < k\<close>, and for scale 0.5 the destination pixel
  \<open>(dr.x + sx/2, dr.y + sy/2)\<close> equals the source pixel \<open>(sr.x + sx, sr.y + sy)\<close> for even
  \<open>sx\<close> and \<open>sy\<close>.
\<close>

theorem blit_fast_nearest_neighbour:
  assumes "fast_ready P src dst"
    and "scale = 2 \<or> scale = 3 \<or> scale = 4 \<or> scale = 0.5"
    and "rect_in_surface sr src" and "rect_in_surface (fast_region sr dr scale) dst"
    and "\<forall>sx sy. 0 \<le> sx \<and> sx < rect_w sr \<and> 0 \<le> sy \<and> sy < rect_h sr \<longrightarrow>
           pixel16 src (rect_x sr + sx) (rect_y sr + sy) \<noteq> Inr key565"
  shows "\<exists>dst'. blit_colorkey_scale_fast_RGB565 P src sr dst dr key565 scale = Inr (True, dst') \<and>
           (\<forall>k sx sy i j. scale = of_int k \<and> 0 \<le> sx \<and> sx < rect_w sr \<and> 0 \<le> sy \<and> sy < rect_h sr \<and>
               0 \<le> i \<and> i < k \<and> 0 \<le> j \<and> j < k \<longrightarrow>
               (\<exists>v. pixel16 src (rect_x sr + sx) (rect_y sr + sy) = Inr v \<and>
                    pixel16 dst' (rect_x dr + sx * k + i) (rect_y dr + sy * k + j) = Inr v)) \<and>
           (\<forall>sx sy. scale = 0.5 \<and> 0 \<le> sx \<and> sx < rect_w sr \<and> 0 \<le> sy \<and> sy < rect_h sr \<and>
               even sx \<and> even sy \<longrightarrow>
               (\<exists>v. pixel16 src (rect_x sr + sx) (rect_y sr + sy) = Inr v \<and>
                    pixel16 dst' (rect_x dr + sx div 2) (rect_y dr + sy div 2) = Inr v))"
proof -
  obtain dp where dp: "blit_colorkey_scale_fast_RGB565 P src sr dst dr key565 scale
                = Inr (True, dst\<lparr>surf_pixels := dp\<rparr>)"
    and px: "\<And>X Y. 0 \<le> X \<and> X < surf_w dst \<and> 0 \<le> Y \<and> Y < surf_h dst \<Longrightarrow>
              pixel16 (dst\<lparr>surf_pixels := dp\<rparr>) X Y =
                (if in_rect (fast_region sr dr scale) X Y \<and>
                    fast_sample src sr dr scale X Y \<noteq> Inr key565
                 then fast_sample src sr dr scale X Y
                 else pixel16 dst X Y)"
    using blit_fast_pixels[OF assms(1-4), of key565] by blast
  let ?d = "dst\<lparr>surf_pixels := dp\<rparr>"
  note sg = fast_ready_grids(1)[OF assms(1)]
  have up: "\<exists>v. pixel16 src (rect_x sr + sx) (rect_y sr + sy) = Inr v \<and>
                    pixel16 ?d (rect_x dr + sx * k + i) (rect_y dr + sy * k + j) = Inr v"
    if h: "scale = of_int k \<and> 0 \<le> sx \<and> sx < rect_w sr \<and> 0 \<le> sy \<and> sy < rect_h sr \<and>
               0 \<le> i \<and> i < k \<and> 0 \<le> j \<and> j < k" for k sx sy i j
  proof -
    from h have k: "scale = of_int k" and r: "0 \<le> sx" "sx < rect_w sr" "0 \<le> sy" "sy < rect_h sr"
      "0 \<le> i" "i < k" "0 \<le> j" "j < k" by auto
    note c = blit_fast_cell_up[OF assms(2) k assms(4) r]
    obtain v where v: "pixel16 src (rect_x sr + sx) (rect_y sr + sy) = Inr v"
      using pixel16_ok[OF sg assms(3) r(1-4)] by blast
    have nk: "pixel16 src (rect_x sr + sx) (rect_y sr + sy) \<noteq> Inr key565"
      using assms(5) r by blast
    show ?thesis using px[OF c(1)] c(2,3) v nk by simp
  qed
  have half: "\<exists>v. pixel16 src (rect_x sr + sx) (rect_y sr + sy) = Inr v \<and>
                    pixel16 ?d (rect_x dr + sx div 2) (rect_y dr + sy div 2) = Inr v"
    if h: "scale = 0.5 \<and> 0 \<le> sx \<and> sx < rect_w sr \<and> 0 \<le> sy \<and> sy < rect_h sr \<and>
               even sx \<and> even sy" for sx sy
  proof -
    from h have k: "scale = 0.5" and r: "0 \<le> sx" "sx < rect_w sr" "0 \<le> sy" "sy < rect_h sr"
      "even sx" "even sy" by auto
    note c = blit_fast_cell_half[OF k assms(4) r]
    obtain v where v: "pixel16 src (rect_x sr + sx) (rect_y sr + sy) = Inr v"
      using pixel16_ok[OF sg assms(3) r(1-4)] by blast
    have nk: "pixel16 src (rect_x sr + sx) (rect_y sr + sy) \<noteq> Inr key565"
      using assms(5) r by blast
    show ?thesis using px[OF c(1)] c(2,3) v nk by simp
  qed
  show ?thesis using dp up half by blast
qed

theorem blit_fast_nearest_neighbour_witness:
  "\<exists>dst'. blit_colorkey_scale_fast_RGB565 packed_platform two_pixels
             \<lparr>rect_x = 0, rect_y = 0, rect_w = 2, rect_h = 1\<rparr> example_window
             \<lparr>rect_x = 10, rect_y = 20, rect_w = 4, rect_h = 2\<rparr> 0x2104 2 = Inr (True, dst') \<and>
     pixel16 dst' 10 20 = Inr 513 \<and> pixel16 dst' 13 21 = Inr 1027"
proof -
  let ?sr = "\<lparr>rect_x = 0, rect_y = 0, rect_w = 2, rect_h = 1\<rparr>"
  let ?dr = "\<lparr>rect_x = 10, rect_y = 20, rect_w = 4, rect_h = 2\<rparr>"
  have sc: "(2::real) = 2 \<or> (2::real) = 3 \<or> (2::real) = 4 \<or> (2::real) = 0.5" by simp
  have a: "rect_in_surface ?sr two_pixels"
    by (simp add: rect_in_surface_def two_pixels_def)
  have b: "rect_in_surface (fast_region ?sr ?dr 2) example_window"
    by (simp add: rect_in_surface_def fast_region_def fast_extent_simps example_window_def)
  have c: "\<forall>sx sy. 0 \<le> sx \<and> sx < rect_w ?sr \<and> 0 \<le> sy \<and> sy < rect_h ?sr \<longrightarrow>
           pixel16 two_pixels (rect_x ?sr + sx) (rect_y ?sr + sy) \<noteq> Inr 0x2104"
  proof (intro allI impI)
    fix sx sy :: int
    assume "0 \<le> sx \<and> sx < rect_w ?sr \<and> 0 \<le> sy \<and> sy < rect_h ?sr"
    then have "(sx = 0 \<or> sx = 1) \<and> sy = 0" by auto
    then show "pixel16 two_pixels (rect_x ?sr + sx) (rect_y ?sr + sy) \<noteq> Inr 0x2104"
      using two_pixels_pixel16 by auto
  qed
  from blit_fast_nearest_neighbour[OF two_pixels_fast_ready sc a b c]
  obtain dst' where d: "blit_colorkey_scale_fast_RGB565 packed_platform two_pixels ?sr example_window
        ?dr 0x2104 2 = Inr (True, dst')"
    and up: "\<And>k sx sy i j. (2::real) = of_int k \<and> 0 \<le> sx \<and> sx < rect_w ?sr \<and> 0 \<le> sy \<and> sy < rect_h ?sr \<and>
               0 \<le> i \<and> i < k \<and> 0 \<le> j \<and> j < k \<Longrightarrow>
               (\<exists>v. pixel16 two_pixels (rect_x ?sr + sx) (rect_y ?sr + sy) = Inr v \<and>
                    pixel16 dst' (rect_x ?dr + sx * k + i) (rect_y ?dr + sy * k + j) = Inr v)"
    by blast
  have "pixel16 dst' 10 20 = Inr 513"
    using up[of 2 0 0 0 0] two_pixels_pixel16 by simp
  moreover have "pixel16 dst' 13 21 = Inr 1027"
    using up[of 2 1 0 1 1] two_pixels_pixel16 by simp
  ultimately show ?thesis using d by blast
qed

text \<open>
  C2: in the fast path, a source pixel equal to the colorkey causes no change of the
  destination: every destination pixel whose source sample equals \<open>key565\<close> holds after the call
  the value it held before, and every other destination pixel is either outside the region the
  loops run over, and unchanged, or holds its own source sample.
\<close>

theorem blit_fast_colorkey_transparent:
  assumes "fast_ready P src dst"
    and "scale = 2 \<or> scale = 3 \<or> scale = 4 \<or> scale = 0.5"
    and "rect_in_surface sr src" and "rect_in_surface (fast_region sr dr scale) dst"
  shows "\<exists>dst'. blit_colorkey_scale_fast_RGB565 P src sr dst dr key565 scale = Inr (True, dst') \<and>
           (\<forall>X Y. 0 \<le> X \<and> X < surf_w dst \<and> 0 \<le> Y \<and> Y < surf_h dst \<longrightarrow>
              pixel16 dst' X Y =
                (if in_rect (fast_region sr dr scale) X Y \<and>
                    fast_sample src sr dr scale X Y \<noteq> Inr key565
                 then fast_sample src sr dr scale X Y
                 else pixel16 dst X Y)) \<and>
           (\<forall>k sx sy i j. scale = of_int k \<and> 0 \<le> sx \<and> sx < rect_w sr \<and> 0 \<le> sy \<and> sy < rect_h sr \<and>
               0 \<le> i \<and> i < k \<and> 0 \<le> j \<and> j < k \<and>
               pixel16 src (rect_x sr + sx) (rect_y sr + sy) = Inr key565 \<longrightarrow>
               pixel16 dst' (rect_x dr + sx * k + i) (rect_y dr + sy * k + j) =
               pixel16 dst (rect_x dr + sx * k + i) (rect_y dr + sy * k + j)) \<and>
           (\<forall>sx sy. scale = 0.5 \<and> 0 \<le> sx \<and> sx < rect_w sr \<and> 0 \<le> sy \<and> sy < rect_h sr \<and>
               even sx \<and> even sy \<and>
               pixel16 src (rect_x sr + sx) (rect_y sr + sy) = Inr key565 \<longrightarrow>
               pixel16 dst' (rect_x dr + sx div 2) (rect_y dr + sy div 2) =
               pixel16 dst (rect_x dr + sx div 2) (rect_y dr + sy div 2))"
proof -
  obtain dp where dp: "blit_colorkey_scale_fast_RGB565 P src sr dst dr key565 scale
                = Inr (True, dst\<lparr>surf_pixels := dp\<rparr>)"
    and px: "\<And>X Y. 0 \<le> X \<and> X < surf_w dst \<and> 0 \<le> Y \<and> Y < surf_h dst \<Longrightarrow>
              pixel16 (dst\<lparr>surf_pixels := dp\<rparr>) X Y =
                (if in_rect (fast_region sr dr scale) X Y \<and>
                    fast_sample src sr dr scale X Y \<noteq> Inr key565
                 then fast_sample src sr dr scale X Y
                 else pixel16 dst X Y)"
    using blit_fast_pixels[OF assms(1-4), of key565] by blast
  let ?d = "dst\<lparr>surf_pixels := dp\<rparr>"
  have up: "pixel16 ?d (rect_x dr + sx * k + i) (rect_y dr + sy * k + j) =
               pixel16 dst (rect_x dr + sx * k + i) (rect_y dr + sy * k + j)"
    if h: "scale = of_int k \<and> 0 \<le> sx \<and> sx < rect_w sr \<and> 0 \<le> sy \<and> sy < rect_h sr \<and>
               0 \<le> i \<and> i < k \<and> 0 \<le> j \<and> j < k \<and>
               pixel16 src (rect_x sr + sx) (rect_y sr + sy) = Inr key565" for k sx sy i j
  proof -
    from h have k: "scale = of_int k" and r: "0 \<le> sx" "sx < rect_w sr" "0 \<le> sy" "sy < rect_h sr"
      "0 \<le> i" "i < k" "0 \<le> j" "j < k"
      and ky: "pixel16 src (rect_x sr + sx) (rect_y sr + sy) = Inr key565" by auto
    note c = blit_fast_cell_up[OF assms(2) k assms(4) r]
    show ?thesis using px[OF c(1)] c(3)[of src] ky by simp
  qed
  have half: "pixel16 ?d (rect_x dr + sx div 2) (rect_y dr + sy div 2) =
               pixel16 dst (rect_x dr + sx div 2) (rect_y dr + sy div 2)"
    if h: "scale = 0.5 \<and> 0 \<le> sx \<and> sx < rect_w sr \<and> 0 \<le> sy \<and> sy < rect_h sr \<and>
               even sx \<and> even sy \<and>
               pixel16 src (rect_x sr + sx) (rect_y sr + sy) = Inr key565" for sx sy
  proof -
    from h have k: "scale = 0.5" and r: "0 \<le> sx" "sx < rect_w sr" "0 \<le> sy" "sy < rect_h sr"
      "even sx" "even sy"
      and ky: "pixel16 src (rect_x sr + sx) (rect_y sr + sy) = Inr key565" by auto
    note c = blit_fast_cell_half[OF k assms(4) r]
    show ?thesis using px[OF c(1)] c(3)[of src] ky by simp
  qed
  show ?thesis using dp px up half by blast
qed

theorem blit_fast_colorkey_transparent_witness:
  "\<exists>dst'. blit_colorkey_scale_fast_RGB565 packed_platform two_pixels
             \<lparr>rect_x = 0, rect_y = 0, rect_w = 2, rect_h = 1\<rparr> example_window
             \<lparr>rect_x = 10, rect_y = 20, rect_w = 4, rect_h = 2\<rparr> 513 2 = Inr (True, dst') \<and>
     pixel16 dst' 11 21 = Inr 0 \<and> pixel16 dst' 12 20 = Inr 1027 \<and> pixel16 dst' 14 20 = Inr 0"
proof -
  let ?sr = "\<lparr>rect_x = 0, rect_y = 0, rect_w = 2, rect_h = 1\<rparr>"
  let ?dr = "\<lparr>rect_x = 10, rect_y = 20, rect_w = 4, rect_h = 2\<rparr>"
  have sc: "(2::real) = 2 \<or> (2::real) = 3 \<or> (2::real) = 4 \<or> (2::real) = 0.5" by simp
  have a: "rect_in_surface ?sr two_pixels"
    by (simp add: rect_in_surface_def two_pixels_def)
  have b: "rect_in_surface (fast_region ?sr ?dr 2) example_window"
    by (simp add: rect_in_surface_def fast_region_def fast_extent_simps example_window_def)
  from blit_fast_colorkey_transparent[OF two_pixels_fast_ready sc a b, of 513]
  obtain dst' where d: "blit_colorkey_scale_fast_RGB565 packed_platform two_pixels ?sr example_window
        ?dr 513 2 = Inr (True, dst')"
    and px: "\<And>X Y. 0 \<le> X \<and> X < surf_w example_window \<and> 0 \<le> Y \<and> Y < surf_h example_window \<Longrightarrow>
              pixel16 dst' X Y =
                (if in_rect (fast_region ?sr ?dr 2) X Y \<and>
                    fast_sample two_pixels ?sr ?dr 2 X Y \<noteq> Inr 513
                 then fast_sample two_pixels ?sr ?dr 2 X Y
                 else pixel16 example_window X Y)"
    and up: "\<And>k sx sy i j. (2::real) = of_int k \<and> 0 \<le> sx \<and> sx < rect_w ?sr \<and> 0 \<le> sy \<and> sy < rect_h ?sr \<and>
               0 \<le> i \<and> i < k \<and> 0 \<le> j \<and> j < k \<and>
               pixel16 two_pixels (rect_x ?sr + sx) (rect_y ?sr + sy) = Inr 513 \<Longrightarrow>
               pixel16 dst' (rect_x ?dr + sx * k + i) (rect_y ?dr + sy * k + j) =
               pixel16 example_window (rect_x ?dr + sx * k + i) (rect_y ?dr + sy * k + j)"
    by blast
  have w: "surf_w example_window = 720" "surf_h example_window = 720"
    by (simp_all add: example_window_def)
  have "pixel16 dst' 11 21 = Inr 0"
    using up[of 2 0 0 1 1] two_pixels_pixel16 example_window_pixel16[of 11 21] by simp
  moreover have "pixel16 dst' 12 20 = Inr 1027"
    using px[of 12 20] two_pixels_pixel16
    by (simp add: w in_rect_def fast_region_def fast_extent_simps fast_sample_def fast_source_simps)
  moreover have "pixel16 dst' 14 20 = Inr 0"
    using px[of 14 20] example_window_pixel16[of 14 20]
    by (simp add: w in_rect_def fast_region_def fast_extent_simps)
  ultimately show ?thesis using d by blast
qed

section \<open>Written region and draw size: C4\<close>

lemma example_sheet_pixel16:
  assumes "0 \<le> X" "X < sw" "0 \<le> Y" "Y < sh"
  shows "pixel16 (example_sheet sw sh) X Y = Inr 0xAAAA"
proof -
  have "(Y + 1) * (2 * sw) \<le> sh * (2 * sw)" using assms by (intro mult_right_mono) auto
  then have "Y * (2 * sw) + X * 2 + 2 \<le> sh * (2 * sw)" using assms by (simp add: algebra_simps)
  moreover have "0 \<le> Y * (2 * sw)" using assms by simp
  ultimately have "0 \<le> Y * (2 * sw) + X * 2"
    "Y * (2 * sw) + X * 2 + 2 \<le> int (nat (sh * (2 * sw)))" using assms by auto
  from load16_replicate[OF this] show ?thesis
    by (simp add: pixel16_def example_sheet_def word_cat_eq)
qed

lemma example_sheet_fast_ready:
  assumes "0 \<le> sw" "0 \<le> sh"
  shows "fast_ready packed_platform (example_sheet sw sh) example_window"
  using assms
  by (simp add: fast_ready_def packed_platform_def example_sheet_def example_window_def surface_ok_def
      surface_bpp_def grid_ok_def)

text \<open>
  C4 on the code: the state is the one \<open>SDL_AppInit\<close> builds from a sheet of 803 x 400 pixels
  (eight columns of 100 pixels and a remainder of 3), at frame 7, the last column of the first
  row. The source rectangle is 103 pixels wide, the draw size is 200 x 200, and the fast blit
  at scale 2 runs over 206 destination columns: after the draw step the window pixel in column
  465 of row 260, outside the dirty rectangle \<open>(260, 260, 200, 200)\<close>, holds a sprite pixel.
\<close>

theorem fast_blit_exceeds_draw_size:
  "get_src_for_frame_rot ((example_app 803 400)\<lparr>app_frame := 7\<rparr>) 7 0 =
     Inr \<lparr>rect_x = 700, rect_y = 0, rect_w = 103, rect_h = 100\<rparr> \<and>
   draw_size_for_rot packed_platform ((example_app 803 400)\<lparr>app_frame := 7\<rparr>) 0 = (200, 200) \<and>
   fast_region \<lparr>rect_x = 700, rect_y = 0, rect_w = 103, rect_h = 100\<rparr>
     \<lparr>rect_x = 260, rect_y = 260, rect_w = 200, rect_h = 200\<rparr> 2 =
     \<lparr>rect_x = 260, rect_y = 260, rect_w = 206, rect_h = 200\<rparr> \<and>
   pixel16 example_window 465 260 = Inr 0 \<and>
   (\<exists>a'. iterate_draw packed_platform 200 200 ((example_app 803 400)\<lparr>app_frame := 7\<rparr>) =
            Inr (SDL_APP_CONTINUE, a') \<and>
         app_prev_dst a' = \<lparr>rect_x = 260, rect_y = 260, rect_w = 200, rect_h = 200\<rparr> \<and>
         pixel16 (app_win a') 465 260 = Inr 0xAAAA)"
proof -
  let ?a = "(example_app 803 400)\<lparr>app_frame := 7\<rparr>"
  let ?src = "\<lparr>rect_x = 700, rect_y = 0, rect_w = 103, rect_h = 100\<rparr>"
  let ?dst = "\<lparr>rect_x = 260, rect_y = 260, rect_w = 200, rect_h = 200\<rparr>"
  let ?sheet = "example_sheet 803 400"
  have src: "get_src_for_frame_rot ?a 7 0 = Inr ?src"
    by (simp add: get_src_for_frame_rot_def sheet_rot_at_def grid_for_rot_def map_cell_for_rot_def
      example_app_def example_sheet_def SPRITE_COLS_def SPRITE_ROWS_def Let_def
      signed_divide_int_def signed_modulo_int_def)
  have e: "f_add packed_platform r s = r + s" "f_of_int packed_platform n = of_int n"
    "f_mul packed_platform r s = r * s" for r s n
    by (simp_all add: f_add_def f_of_int_def f_mul_def packed_platform_def)
  have ds: "draw_size_for_rot packed_platform ?a 0 = (200, 200)"
    by (simp add: draw_size_for_rot_def grid_for_rot_def e int_of_float_def Let_def example_app_def
        SPRITE_COLS_def SPRITE_ROWS_def signed_divide_int_def)
  have reg: "fast_region ?src ?dst 2 = \<lparr>rect_x = 260, rect_y = 260, rect_w = 206, rect_h = 200\<rparr>"
    by (simp add: fast_region_def fast_extent_simps)
  have w0: "pixel16 example_window 465 260 = Inr 0"
    by (simp add: example_window_pixel16)
  have sc: "(2::real) = 2 \<or> (2::real) = 3 \<or> (2::real) = 4 \<or> (2::real) = 0.5" by simp
  have rdy: "fast_ready packed_platform ?sheet example_window"
    by (simp add: example_sheet_fast_ready)
  have a: "rect_in_surface ?src ?sheet" by (simp add: rect_in_surface_def example_sheet_def)
  have b: "rect_in_surface (fast_region ?src ?dst 2) example_window"
    unfolding reg by (simp add: rect_in_surface_def example_window_def)
  obtain dp where dp: "blit_colorkey_scale_fast_RGB565 packed_platform ?sheet ?src example_window ?dst
                         0x2104 2 = Inr (True, example_window\<lparr>surf_pixels := dp\<rparr>)"
    and px: "\<And>X Y. 0 \<le> X \<and> X < surf_w example_window \<and> 0 \<le> Y \<and> Y < surf_h example_window \<Longrightarrow>
              pixel16 (example_window\<lparr>surf_pixels := dp\<rparr>) X Y =
                (if in_rect (fast_region ?src ?dst 2) X Y \<and>
                    fast_sample ?sheet ?src ?dst 2 X Y \<noteq> Inr 0x2104
                 then fast_sample ?sheet ?src ?dst 2 X Y
                 else pixel16 example_window X Y)"
    using blit_fast_pixels[OF rdy sc a b, where key = "0x2104"] by blast
  have smp: "fast_sample ?sheet ?src ?dst 2 465 260 = Inr 0xAAAA"
    by (simp add: fast_sample_def fast_source_simps example_sheet_pixel16)
  have p: "pixel16 (example_window\<lparr>surf_pixels := dp\<rparr>) 465 260 = Inr 0xAAAA"
    using px[of 465 260] smp unfolding reg
    by (simp add: in_rect_def example_window_def)
  have v: "app_has_prev ?a = False" "app_rot ?a = 0" "app_frame ?a = 7" "app_scale ?a = 2"
    "app_is565 ?a = True" "app_win ?a = example_window" "app_key565 ?a = 0x2104"
    "int_of_float (app_x ?a) = 260" "int_of_float (app_y ?a) = 260"
    "sheet_rot_at ?a 0 = Inr ?sheet"
    by (simp_all add: example_app_def sheet_rot_at_def int_of_float_def SPRITE_COLS_def
        SPRITE_ROWS_def signed_divide_int_def)
  have v0: "int_of_float (app_x (example_app 803 400)) = 260"
    "int_of_float (app_y (example_app 803 400)) = 260"
    using v(8,9) by simp_all
  have bl: "iterate_blit packed_platform ?a ?sheet ?src ?dst =
              Inr (True, example_window\<lparr>surf_pixels := dp\<rparr>, ?dst)"
    using dp by (simp add: iterate_blit_def v)
  have "iterate_draw packed_platform 200 200 ?a =
          Inr (SDL_APP_CONTINUE,
               ?a\<lparr>app_win := example_window\<lparr>surf_pixels := dp\<rparr>, app_prev_dst := ?dst,
                    app_has_prev := True\<rparr>)"
    using bl src by (simp add: iterate_draw_def v v0 Let_def)
  then have "\<exists>a'. iterate_draw packed_platform 200 200 ?a = Inr (SDL_APP_CONTINUE, a') \<and>
         app_prev_dst a' = ?dst \<and> pixel16 (app_win a') 465 260 = Inr 0xAAAA"
    using p by simp
  with src ds reg w0 show ?thesis by blast
qed

section \<open>The whole tick: C10\<close>

lemma draw_size_for_rot_cong:
  assumes "app_cols b = app_cols a" "app_rows b = app_rows a" "app_fw b = app_fw a"
    "app_fh b = app_fh a" "app_scale b = app_scale a"
  shows "draw_size_for_rot P b r = draw_size_for_rot P a r"
proof -
  have "grid_for_rot b r = grid_for_rot a r" using assms by (simp add: grid_for_rot_def Let_def)
  then show ?thesis using assms(5) by (simp add: draw_size_for_rot_def)
qed

lemma get_src_for_frame_rot_cong:
  assumes "app_cols b = app_cols a" "app_rows b = app_rows a" "app_fw b = app_fw a"
    "app_fh b = app_fh a" "app_sheet_rot b = app_sheet_rot a"
  shows "get_src_for_frame_rot b i r = get_src_for_frame_rot a i r"
proof -
  have g: "grid_for_rot b r = grid_for_rot a r" using assms by (simp add: grid_for_rot_def Let_def)
  have m: "map_cell_for_rot b r br bc = map_cell_for_rot a r br bc" for br bc
    using assms by (simp add: map_cell_for_rot_def Let_def)
  have s: "sheet_rot_at b r = sheet_rot_at a r" using assms by (simp add: sheet_rot_at_def)
  show ?thesis unfolding get_src_for_frame_rot_def g m s assms(1) ..
qed

lemma iterate_move_updates:
  "\<exists>X Y VX VY. iterate_move P dw dh a = a\<lparr>app_x := X, app_y := Y, app_vx := VX, app_vy := VY\<rparr>"
proof -
  have k: "\<exists>X Y VX VY. (if c then b\<lparr>app_x := X', app_vx := V'\<rparr> else b)
             = a\<lparr>app_x := X, app_y := Y, app_vx := VX, app_vy := VY\<rparr>"
    if "\<exists>X Y VX VY. b = a\<lparr>app_x := X, app_y := Y, app_vx := VX, app_vy := VY\<rparr>"
    for b :: App and c X' V'
  proof -
    from that obtain X Y VX VY where b: "b = a\<lparr>app_x := X, app_y := Y, app_vx := VX, app_vy := VY\<rparr>"
      by blast
    show ?thesis
    proof (cases c)
      case True
      have "b\<lparr>app_x := X', app_vx := V'\<rparr> = a\<lparr>app_x := X', app_y := Y, app_vx := V', app_vy := VY\<rparr>"
        unfolding b by simp
      with True show ?thesis by auto
    next
      case False
      with b show ?thesis by auto
    qed
  qed
  have l: "\<exists>X Y VX VY. (if c then b\<lparr>app_y := Y', app_vy := V'\<rparr> else b)
             = a\<lparr>app_x := X, app_y := Y, app_vx := VX, app_vy := VY\<rparr>"
    if "\<exists>X Y VX VY. b = a\<lparr>app_x := X, app_y := Y, app_vx := VX, app_vy := VY\<rparr>"
    for b :: App and c Y' V'
  proof -
    from that obtain X Y VX VY where b: "b = a\<lparr>app_x := X, app_y := Y, app_vx := VX, app_vy := VY\<rparr>"
      by blast
    show ?thesis
    proof (cases c)
      case True
      have "b\<lparr>app_y := Y', app_vy := V'\<rparr> = a\<lparr>app_x := X, app_y := Y', app_vx := VX, app_vy := V'\<rparr>"
        unfolding b by simp
      with True show ?thesis by auto
    next
      case False
      with b show ?thesis by auto
    qed
  qed
  have s0: "\<exists>X Y VX VY. a\<lparr>app_x := X0\<rparr>\<lparr>app_y := Y0\<rparr>
              = a\<lparr>app_x := X, app_y := Y, app_vx := VX, app_vy := VY\<rparr>" for X0 Y0
  proof -
    have "a\<lparr>app_x := X0\<rparr>\<lparr>app_y := Y0\<rparr> = a\<lparr>app_x := X0, app_y := Y0, app_vx := app_vx a, app_vy := app_vy a\<rparr>"
      by simp
    then show ?thesis by blast
  qed
  show ?thesis
    unfolding iterate_move_def Let_def
    by (intro l k s0)
qed

lemma iterate_move_keeps:
  "app_cols (iterate_move P dw dh a) = app_cols a"
  "app_rows (iterate_move P dw dh a) = app_rows a"
  "app_fw (iterate_move P dw dh a) = app_fw a"
  "app_fh (iterate_move P dw dh a) = app_fh a"
  "app_scale (iterate_move P dw dh a) = app_scale a"
  "app_sheet_rot (iterate_move P dw dh a) = app_sheet_rot a"
  "app_rot (iterate_move P dw dh a) = app_rot a"
  "app_frame (iterate_move P dw dh a) = app_frame a"
  "app_frames (iterate_move P dw dh a) = app_frames a"
  "app_win (iterate_move P dw dh a) = app_win a"
  "app_screen_w (iterate_move P dw dh a) = app_screen_w a"
  "app_screen_h (iterate_move P dw dh a) = app_screen_h a"
  "app_tex_w (iterate_move P dw dh a) = app_tex_w a"
  "app_tex_h (iterate_move P dw dh a) = app_tex_h a"
  "app_anim_step_ms_eff (iterate_move P dw dh a) = app_anim_step_ms_eff a"
  "app_is565 (iterate_move P dw dh a) = app_is565 a"
  "app_key565 (iterate_move P dw dh a) = app_key565 a"
  "app_has_prev (iterate_move P dw dh a) = app_has_prev a"
  "app_prev_dst (iterate_move P dw dh a) = app_prev_dst a"
  "app_black (iterate_move P dw dh a) = app_black a"
proof -
  obtain X Y VX VY where
    e: "iterate_move P dw dh a = a\<lparr>app_x := X, app_y := Y, app_vx := VX, app_vy := VY\<rparr>"
    using iterate_move_updates by blast
  show
  "app_cols (iterate_move P dw dh a) = app_cols a"
  "app_rows (iterate_move P dw dh a) = app_rows a"
  "app_fw (iterate_move P dw dh a) = app_fw a"
  "app_fh (iterate_move P dw dh a) = app_fh a"
  "app_scale (iterate_move P dw dh a) = app_scale a"
  "app_sheet_rot (iterate_move P dw dh a) = app_sheet_rot a"
  "app_rot (iterate_move P dw dh a) = app_rot a"
  "app_frame (iterate_move P dw dh a) = app_frame a"
  "app_frames (iterate_move P dw dh a) = app_frames a"
  "app_win (iterate_move P dw dh a) = app_win a"
  "app_screen_w (iterate_move P dw dh a) = app_screen_w a"
  "app_screen_h (iterate_move P dw dh a) = app_screen_h a"
  "app_tex_w (iterate_move P dw dh a) = app_tex_w a"
  "app_tex_h (iterate_move P dw dh a) = app_tex_h a"
  "app_anim_step_ms_eff (iterate_move P dw dh a) = app_anim_step_ms_eff a"
  "app_is565 (iterate_move P dw dh a) = app_is565 a"
  "app_key565 (iterate_move P dw dh a) = app_key565 a"
  "app_has_prev (iterate_move P dw dh a) = app_has_prev a"
  "app_prev_dst (iterate_move P dw dh a) = app_prev_dst a"
  "app_black (iterate_move P dw dh a) = app_black a"
    by (simp_all add: e)
qed

lemma iterate_blit_dst:
  assumes "iterate_blit P a sheet src dst = Inr (ok, win', dst')"
  shows "dst' = (if app_scale a = 1 then dst\<lparr>rect_w := rect_w src, rect_h := rect_h src\<rparr> else dst)"
  using assms
  by (auto simp: iterate_blit_def Let_def split: if_splits prod.splits sum.splits)

lemma iterate_draw_result:
  assumes "iterate_draw P dw dh a = Inr (r, a')"
  shows "\<exists>win' src. r = SDL_APP_CONTINUE \<and>
           get_src_for_frame_rot a (app_frame a) (app_rot a) = Inr src \<and>
           a' = a\<lparr>app_win := win',
                  app_prev_dst := \<lparr>rect_x = int_of_float (app_x a), rect_y = int_of_float (app_y a),
                                    rect_w = (if app_scale a = 1 then rect_w src else dw),
                                    rect_h = (if app_scale a = 1 then rect_h src else dh)\<rparr>,
                  app_has_prev := True\<rparr>"
proof -
  let ?a1 = "(if app_has_prev a
               then a\<lparr>app_win := SDL_FillSurfaceRect P (app_win a) (Some (app_prev_dst a)) (app_black a)\<rparr>
               else a)"
  let ?dst = "\<lparr>rect_x = int_of_float (app_x ?a1), rect_y = int_of_float (app_y ?a1),
                              rect_w = dw, rect_h = dh\<rparr>"
  have g: "get_src_for_frame_rot ?a1 (app_frame ?a1) (app_rot ?a1)
           = get_src_for_frame_rot a (app_frame a) (app_rot a)"
  proof -
    have f: "app_frame ?a1 = app_frame a" "app_rot ?a1 = app_rot a" by simp_all
    show ?thesis unfolding f by (rule get_src_for_frame_rot_cong) simp_all
  qed
  from assms obtain sheet src ok win' dst' where
    s: "get_src_for_frame_rot ?a1 (app_frame ?a1) (app_rot ?a1) = Inr src"
    and b: "iterate_blit P ?a1 sheet src ?dst = Inr (ok, win', dst')"
    and r: "r = SDL_APP_CONTINUE"
    and a': "a' = ?a1\<lparr>app_win := win', app_prev_dst := dst', app_has_prev := True\<rparr>"
    unfolding iterate_draw_def Let_def
    by (auto split: sum.splits prod.splits)
  have d: "dst' = (if app_scale ?a1 = 1 then ?dst\<lparr>rect_w := rect_w src, rect_h := rect_h src\<rparr> else ?dst)"
    by (rule iterate_blit_dst[OF b])
  have "a' = a\<lparr>app_win := win',
                  app_prev_dst := \<lparr>rect_x = int_of_float (app_x a), rect_y = int_of_float (app_y a),
                                    rect_w = (if app_scale a = 1 then rect_w src else dw),
                                    rect_h = (if app_scale a = 1 then rect_h src else dh)\<rparr>,
                  app_has_prev := True\<rparr>"
    unfolding a' d by simp
  with r s g show ?thesis by auto
qed

lemma iterate_draw_tracks:
  assumes "iterate_draw P dw dh a = Inr (r, a')"
    and "draw_size_for_rot P a (app_rot a) = (dw, dh)"
  shows "r = SDL_APP_CONTINUE \<and> app_has_prev a' \<and> tick_dst P a' = Inr (app_prev_dst a')"
proof -
  from iterate_draw_result[OF assms(1)] obtain win' src where
    r: "r = SDL_APP_CONTINUE"
    and s: "get_src_for_frame_rot a (app_frame a) (app_rot a) = Inr src"
    and a': "a' = a\<lparr>app_win := win',
                  app_prev_dst := \<lparr>rect_x = int_of_float (app_x a), rect_y = int_of_float (app_y a),
                                    rect_w = (if app_scale a = 1 then rect_w src else dw),
                                    rect_h = (if app_scale a = 1 then rect_h src else dh)\<rparr>,
                  app_has_prev := True\<rparr>"
    by blast
  have f: "app_frame a' = app_frame a" "app_rot a' = app_rot a" by (simp_all add: a')
  have "get_src_for_frame_rot a' (app_frame a) (app_rot a) =
        get_src_for_frame_rot a (app_frame a) (app_rot a)"
    by (rule get_src_for_frame_rot_cong) (simp_all add: a')
  then have g: "get_src_for_frame_rot a' (app_frame a') (app_rot a') = Inr src"
    unfolding f using s by simp
  have "draw_size_for_rot P a' (app_rot a) = draw_size_for_rot P a (app_rot a)"
    by (rule draw_size_for_rot_cong) (simp_all add: a')
  then have d: "draw_size_for_rot P a' (app_rot a') = (dw, dh)"
    unfolding f using assms(2) by simp
  have "tick_dst P a' = Inr (app_prev_dst a')"
    unfolding tick_dst_def g d by (simp add: a')
  moreover have "app_has_prev a'" by (simp add: a')
  ultimately show ?thesis using r by simp
qed

lemma SDL_AppIterate_tracks:
  assumes "SDL_AppIterate P now a = Some (Inr (r, a'))"
  shows "r = SDL_APP_CONTINUE \<and> app_has_prev a' \<and> tick_dst P a' = Inr (app_prev_dst a')"
proof -
  from assms obtain a1 dw dh where
    an: "iterate_anim now a = Some (Inr a1)"
    and ds: "draw_size_for_rot P a1 (app_rot a1) = (dw, dh)"
    and dr: "iterate_draw P dw dh (iterate_move P dw dh a1) = Inr (r, a')"
    unfolding SDL_AppIterate_def
    by (auto split: option.splits sum.splits prod.splits)
  have "draw_size_for_rot P (iterate_move P dw dh a1) (app_rot a1) =
        draw_size_for_rot P a1 (app_rot a1)"
    by (rule draw_size_for_rot_cong) (simp_all add: iterate_move_keeps)
  then have "draw_size_for_rot P (iterate_move P dw dh a1) (app_rot (iterate_move P dw dh a1)) = (dw, dh)"
    using ds by (simp add: iterate_move_keeps)
  from iterate_draw_tracks[OF dr this] show ?thesis .
qed

lemma iterate_anim_ok:
  assumes "app_anim_step_ms_eff a \<noteq> 0" "0 < app_frames a"
    "0 \<le> app_frame a" "app_frame a < app_frames a"
  shows "\<exists>acc f. iterate_anim now a =
             Some (Inr (a\<lparr>app_last_ms := now, app_ms_accum := acc, app_frame := f\<rparr>)) \<and>
           0 \<le> f \<and> f < app_frames a"
proof -
  let ?acc = "(app_ms_accum a + (now - app_last_ms a)) mod app_anim_step_ms_eff a"
  let ?f = "(app_frame a + uint ((app_ms_accum a + (now - app_last_ms a)) div app_anim_step_ms_eff a))
              mod app_frames a"
  have "iterate_anim now a =
          Some (Inr (a\<lparr>app_last_ms := now, app_ms_accum := ?acc, app_frame := ?f\<rparr>))"
    using anim_loop_result[OF assms] by (simp add: iterate_anim_def Let_def)
  moreover have "0 \<le> ?f" "?f < app_frames a" using assms(2) by simp_all
  ultimately show ?thesis by blast
qed

lemma draw_extent_exact:
  assumes f: "float_ok P" and n: "0 \<le> n" "n < 2 ^ 20" and t: "1 \<le> t" "t \<le> 12"
  shows "int_of_float (f_add P (f_mul P (f_of_int P n) (of_int t / 2)) 0.5) = (n * t + 1) div 2"
proof -
  have nt: "0 \<le> n * t" using n t by simp
  have "n * t \<le> 2 ^ 20 * 12" using n t by (intro mult_mono) auto
  then have b: "\<bar>n * t\<bar> \<le> 2 ^ 24" "\<bar>n * t + 1\<bar> \<le> 2 ^ 24" using nt by simp_all
  have a: "f_of_int P n = of_int n"
    using float_ok_int[OF f, of n] n by (simp add: f_of_int_def)
  have m: "f_mul P (of_int n) (of_int t / 2) = of_int (n * t) / 2"
    using float_ok_half[OF f b(1)] by (simp add: f_mul_def)
  have s: "f_add P (of_int (n * t) / 2) 0.5 = of_int (n * t + 1) / 2"
    using float_ok_half[OF f b(2)] by (simp add: f_add_def add_divide_distrib)
  have "0 \<le> n * t + 1" using nt by simp
  then have "(0::real) \<le> of_int (n * t + 1)" by (simp only: of_int_0_le_iff)
  then have "(0::real) \<le> of_int (n * t + 1) / 2" by simp
  then have "int_of_float (of_int (n * t + 1) / 2) = \<lfloor>(of_int (n * t + 1) :: real) / of_int 2\<rfloor>"
    by (simp add: int_of_float_def)
  also have "\<dots> = (n * t + 1) div 2" by (rule floor_divide_of_int_eq)
  finally show ?thesis unfolding a m s .
qed

lemma half_scale_extent:
  fixes t n :: int
  assumes "1 \<le> t" "t \<le> 12" "scale = of_int t / 2"
    and "scale = 2 \<or> scale = 3 \<or> scale = 4 \<or> scale = 0.5"
  shows "(n * t + 1) div 2 = fast_extent scale n"
proof -
  have r: "of_int t = 2 * scale" using assms(3) by simp
  consider "scale = 2" | "scale = 3" | "scale = 4" | "scale = 0.5" using assms(4) by blast
  then show ?thesis
  proof cases
    case 1
    then have "of_int t = (4::real)" using r by simp
    then have "t = 4" by (simp only: of_int_eq_numeral_iff)
    then show ?thesis using 1 by (simp add: fast_extent_simps)
  next
    case 2
    then have "of_int t = (6::real)" using r by simp
    then have "t = 6" by (simp only: of_int_eq_numeral_iff)
    then show ?thesis using 2 by (simp add: fast_extent_simps)
  next
    case 3
    then have "of_int t = (8::real)" using r by simp
    then have "t = 8" by (simp only: of_int_eq_numeral_iff)
    then show ?thesis using 3 by (simp add: fast_extent_simps)
  next
    case 4
    then have "of_int t = (1::real)" using r by simp
    then have "t = 1" by (simp only: of_int_eq_1_iff)
    then show ?thesis unfolding 4 by (simp add: fast_extent_def)
  qed
qed

lemma src_rect_1d_exact:
  assumes "0 < (n::int)" "0 \<le> W" "n dvd W" "0 \<le> c" "c < n"
  shows "src_rect_1d W n c = (c * (W div n), W div n)"
proof (cases "c = n - 1")
  case False
  then show ?thesis using src_rect_1d_bounds(5)[OF assms(1,2,4,5)] by simp
next
  case True
  have "n * (W div n) = W" using assms(3) by simp
  then have "(c + 1) * (W div n) = W" using True by simp
  then have "W - c * (W div n) = W div n" by (simp add: algebra_simps)
  then show ?thesis using src_rect_1d_bounds(6)[OF assms(1,2,4,5) True] by simp
qed

lemma app_ok_sheet:
  assumes ok: "app_ok P a"
  shows "\<exists>sheet cols_r rows_r fw_r fh_r.
           sheet_rot_at a (app_rot a) = Inr sheet \<and>
           grid_for_rot a (app_rot a) = (cols_r, rows_r, fw_r, fh_r) \<and>
           0 < cols_r \<and> 0 < rows_r \<and> 0 \<le> surf_w sheet \<and> 0 \<le> surf_h sheet \<and>
           cols_r dvd surf_w sheet \<and> rows_r dvd surf_h sheet \<and>
           fw_r = surf_w sheet div cols_r \<and> fh_r = surf_h sheet div rows_r \<and>
           fw_r < 2 ^ 20 \<and> fh_r < 2 ^ 20 \<and>
           (app_is565 a \<longrightarrow> bpp2 P sheet \<and> surface_ok P sheet)"
proof -
  from ok have c: "0 < app_cols a" "0 < app_rows a"
    and r: "app_rot a \<in> {0, 1, 2, 3}" and l: "length (app_sheet_rot a) = 4"
    and d: "\<And>r. r < 4 \<Longrightarrow>
              surf_w (app_sheet_rot a ! r) = (if even r then app_tex_w a else app_tex_h a) \<and>
              surf_h (app_sheet_rot a ! r) = (if even r then app_tex_h a else app_tex_w a)"
    and t: "0 \<le> app_tex_w a" "0 \<le> app_tex_h a"
      "app_cols a dvd app_tex_w a" "app_rows a dvd app_tex_h a"
      "app_fw a = app_tex_w a div app_cols a" "app_fh a = app_tex_h a div app_rows a"
      "app_fw a < 2 ^ 20" "app_fh a < 2 ^ 20"
    and f: "app_is565 a \<Longrightarrow> (\<forall>r < 4. bpp2 P (app_sheet_rot a ! r) \<and> surface_ok P (app_sheet_rot a ! r))"
    unfolding app_ok_def by auto
  let ?n = "nat (app_rot a)"
  have n: "?n < 4" using r by auto
  have s: "sheet_rot_at a (app_rot a) = Inr (app_sheet_rot a ! ?n)"
    using r l by (auto simp: sheet_rot_at_def)
  have fs: "app_is565 a \<longrightarrow> bpp2 P (app_sheet_rot a ! ?n) \<and> surface_ok P (app_sheet_rot a ! ?n)"
    using f n by blast
  show ?thesis
  proof (cases "app_rot a = 0 \<or> app_rot a = 2")
    case True
    then have ev: "even ?n" by auto
    have g: "grid_for_rot a (app_rot a) = (app_cols a, app_rows a, app_fw a, app_fh a)"
      using True by (auto simp: grid_for_rot_def)
    show ?thesis using s g c t d[OF n] ev fs by simp
  next
    case False
    then have o: "app_rot a = 1 \<or> app_rot a = 3" using r by auto
    then have ev: "odd ?n" by auto
    have g: "grid_for_rot a (app_rot a) = (app_rows a, app_cols a, app_fh a, app_fw a)"
      using o by (auto simp: grid_for_rot_def)
    show ?thesis using s g c t d[OF n] ev fs by simp
  qed
qed

lemma app_ok_src:
  assumes ok: "app_ok P a"
    and s: "sheet_rot_at a (app_rot a) = Inr sheet"
    and g: "grid_for_rot a (app_rot a) = (cols_r, rows_r, fw_r, fh_r)"
    and c: "0 < cols_r" "0 < rows_r" "0 \<le> surf_w sheet" "0 \<le> surf_h sheet"
      "cols_r dvd surf_w sheet" "rows_r dvd surf_h sheet"
      "fw_r = surf_w sheet div cols_r" "fh_r = surf_h sheet div rows_r"
  shows "\<exists>src. get_src_for_frame_rot a (app_frame a) (app_rot a) = Inr src \<and>
           rect_in_surface src sheet \<and> rect_w src = fw_r \<and> rect_h src = fh_r"
proof -
  from ok have h: "0 < app_cols a" "0 < app_rows a" "app_rot a \<in> {0, 1, 2, 3}"
    "0 \<le> app_frame a" "app_frame a < app_cols a * app_rows a"
    unfolding app_ok_def by auto
  from get_src_for_frame_rot_cell[OF h s] obtain cc rr where
    r: "0 \<le> cc" "cc < cols_r" "0 \<le> rr" "rr < rows_r"
    and e: "get_src_for_frame_rot a (app_frame a) (app_rot a) =
             Inr \<lparr>rect_x = fst (src_rect_1d (surf_w sheet) cols_r cc),
                  rect_y = fst (src_rect_1d (surf_h sheet) rows_r rr),
                  rect_w = snd (src_rect_1d (surf_w sheet) cols_r cc),
                  rect_h = snd (src_rect_1d (surf_h sheet) rows_r rr)\<rparr>"
    unfolding g by auto
  note bx = src_rect_1d_bounds(1-3)[OF c(1,3) r(1,2)]
  note by' = src_rect_1d_bounds(1-3)[OF c(2,4) r(3,4)]
  note ex = src_rect_1d_exact[OF c(1,3,5) r(1,2)]
  note ey = src_rect_1d_exact[OF c(2,4,6) r(3,4)]
  show ?thesis
    using e bx by' unfolding rect_in_surface_def
    by (simp add: ex ey c(7,8))
qed

lemma app_ok_draw_size:
  assumes f: "float_ok P"
    and g: "grid_for_rot a (app_rot a) = (cols_r, rows_r, fw_r, fh_r)"
    and n: "0 \<le> fw_r" "fw_r < 2 ^ 20" "0 \<le> fh_r" "fh_r < 2 ^ 20"
    and t: "1 \<le> t" "t \<le> 12" "app_scale a = of_int t / 2"
  shows "draw_size_for_rot P a (app_rot a) = ((fw_r * t + 1) div 2, (fh_r * t + 1) div 2)"
  unfolding draw_size_for_rot_def g t(3)
  by (simp only: draw_extent_exact[OF f n(1,2) t(1,2)] draw_extent_exact[OF f n(3,4) t(1,2)]
      Let_def prod.case)

lemma blit_fast_not_handled:
  assumes "\<not> (scale = 2 \<or> scale = 3 \<or> scale = 4 \<or> scale = 0.5)"
  shows "blit_colorkey_scale_fast_RGB565 P src sr dst dr key scale = Inr (False, dst)"
  using assms
  by (auto simp: blit_colorkey_scale_fast_RGB565_def split: option.splits)

lemma same_geometry_ok:
  assumes "same_geometry s t" "surface_ok P s" "bpp2 P s"
  shows "surface_ok P t" "bpp2 P t"
  using assms by (auto simp: same_geometry_def surface_ok_def bpp2_def surface_bpp_def grid_ok_def)

lemma same_geometry_refl: "same_geometry s s"
  by (simp add: same_geometry_def)

lemma same_geometry_trans: "same_geometry s t \<Longrightarrow> same_geometry t u \<Longrightarrow> same_geometry s u"
  by (simp add: same_geometry_def)

lemma for_up_preserves:
  assumes "\<And>i s s'. body i s = Inr s' \<Longrightarrow> f s' = f s"
    and "for_up lo hi body s = Inr s'"
  shows "f s' = f s"
  using assms
proof (induction lo hi body s rule: for_up.induct)
  case (1 i hi body' s)
  show ?case
  proof (cases "i < hi")
    case False
    with 1(3) show ?thesis by (simp add: for_up.simps[of i])
  next
    case True
    with 1(3) obtain s1 where s1: "body' i s = Inr s1" "for_up (i + 1) hi body' s1 = Inr s'"
      by (auto simp: for_up.simps[of i] split: sum.splits)
    have "f s' = f s1" by (rule 1(1)[OF True s1(1) 1(2) s1(2)])
    also have "f s1 = f s" by (rule 1(2)[OF s1(1)])
    finally show ?thesis .
  qed
qed

lemma for_up2_preserves:
  assumes "\<And>i s s'. body i s = Inr s' \<Longrightarrow> f s' = f s"
    and "for_up2 lo hi body s = Inr s'"
  shows "f s' = f s"
  using assms
proof (induction lo hi body s rule: for_up2.induct)
  case (1 i hi body' s)
  show ?case
  proof (cases "i < hi")
    case False
    with 1(3) show ?thesis by (simp add: for_up2.simps[of i])
  next
    case True
    with 1(3) obtain s1 where s1: "body' i s = Inr s1" "for_up2 (i + 2) hi body' s1 = Inr s'"
      by (auto simp: for_up2.simps[of i] split: sum.splits)
    have "f s' = f s1" by (rule 1(1)[OF True s1(1) 1(2) s1(2)])
    also have "f s1 = f s" by (rule 1(2)[OF s1(1)])
    finally show ?thesis .
  qed
qed

lemma store16_length: "store16 dp off v = Inr dp' \<Longrightarrow> length dp' = length dp"
  unfolding store16_def by (rule store_bytes_Inr[THEN conjunct2])

lemma blit_up_sx_length:
  assumes "blit_up_sx sp srow drow key k sx s = Inr s'"
  shows "length (snd s') = length (snd s)"
proof -
  obtain dx dp where s: "s = (dx, dp)" by (cases s) auto
  have rep: "length dp' = length dp0"
    if "for_up 0 k (blit_up_rep drow dx pix) dp0 = Inr dp'" for pix dp0 dp'
    using for_up_preserves[of "blit_up_rep drow dx pix" length, OF _ that]
    by (simp add: blit_up_rep_def store16_length)
  show ?thesis
    using assms rep unfolding blit_up_sx_def s
    by (auto split: sum.splits if_splits)
qed

lemma blit_up_vy_length:
  assumes "blit_up_vy sp srow sr dpitch dr key k sy vy dp = Inr dp'"
  shows "length dp' = length dp"
proof -
  have "length (snd s') = length dp"
    if "for_up 0 (rect_w sr) (blit_up_sx sp srow drow key k) (0, dp) = Inr s'" for drow s'
    using for_up_preserves[of "blit_up_sx sp srow drow key k" "\<lambda>s. length (snd s)", OF _ that]
    by (simp add: blit_up_sx_length)
  then show ?thesis
    using assms unfolding blit_up_vy_def Let_def
    by (fastforce split: sum.splits prod.splits)
qed

lemma blit_up_sy_length:
  assumes "blit_up_sy sp spitch sr dpitch dr key k sy dp = Inr dp'"
  shows "length dp' = length dp"
  using for_up_preserves[of _ length, OF _ assms[unfolded blit_up_sy_def Let_def]]
  by (simp add: blit_up_vy_length)

lemma blit_half_sx_length:
  assumes "blit_half_sx sp srow drow key sx s = Inr s'"
  shows "length (snd s') = length (snd s)"
proof -
  obtain dx dp where s: "s = (dx, dp)" by (cases s) auto
  show ?thesis
    using assms unfolding blit_half_sx_def s
    by (auto split: sum.splits if_splits dest: store16_length)
qed

lemma blit_half_sy_length:
  assumes "blit_half_sy sp spitch sr dpitch dr key sy dp = Inr dp'"
  shows "length dp' = length dp"
proof -
  have "length (snd s') = length dp"
    if "for_up2 0 (rect_w sr) (blit_half_sx sp srow drow key) (0, dp) = Inr s'" for srow drow s'
    using for_up2_preserves[of "blit_half_sx sp srow drow key" "\<lambda>s. length (snd s)", OF _ that]
    by (simp add: blit_half_sx_length)
  then show ?thesis
    using assms unfolding blit_half_sy_def Let_def
    by (fastforce split: sum.splits prod.splits)
qed

lemma blit_fast_same_geometry:
  assumes "blit_colorkey_scale_fast_RGB565 P src sr dst dr key scale = Inr (b, dst')"
  shows "same_geometry dst dst'"
proof -
  have up: "length dp' = length dp"
    if "for_up 0 (rect_h sr) (blit_up_sy sp spitch sr dpitch dr key k) dp = Inr dp'"
    for sp spitch dpitch k dp dp'
    using for_up_preserves[of _ length, OF _ that] by (simp add: blit_up_sy_length)
  have half: "length dp' = length dp"
    if "for_up2 0 (rect_h sr) (blit_half_sy sp spitch sr dpitch dr key) dp = Inr dp'"
    for sp spitch dpitch dp dp'
    using for_up2_preserves[of _ length, OF _ that] by (simp add: blit_half_sy_length)
  show ?thesis
    using assms up half unfolding blit_colorkey_scale_fast_RGB565_def Let_def
    by (auto simp: same_geometry_def split: option.splits if_splits sum.splits)
qed

lemma iterate_blit_ok:
  assumes pk: "platform_ok P"
    and fs: "app_is565 a \<longrightarrow> bpp2 P sheet \<and> surface_ok P sheet \<and>
               bpp2 P (app_win a) \<and> surface_ok P (app_win a)"
    and sr: "rect_in_surface src sheet"
    and dr: "app_scale a = 2 \<or> app_scale a = 3 \<or> app_scale a = 4 \<or> app_scale a = 0.5 \<Longrightarrow>
               rect_in_surface (fast_region src dst (app_scale a)) (app_win a)"
  shows "\<exists>ok win' dst'. iterate_blit P a sheet src dst = Inr (ok, win', dst') \<and>
           same_geometry (app_win a) win'"
proof -
  from pk have lk: "\<And>s. \<not> SDL_LockSurface P s < 0"
    and b1: "\<And>s sr d dr. same_geometry d (snd (SDL_BlitSurface P s sr d dr))"
    and b2: "\<And>s sr d dr. same_geometry d (snd (SDL_BlitSurfaceScaled P s sr d dr))"
    unfolding platform_ok_def by blast+
  show ?thesis
  proof (cases "app_scale a = 1")
    case True
    let ?d = "dst\<lparr>rect_w := rect_w src, rect_h := rect_h src\<rparr>"
    obtain ok win' where e: "SDL_BlitSurface P sheet src (app_win a) ?d = (ok, win')"
      by (cases "SDL_BlitSurface P sheet src (app_win a) ?d") auto
    have "same_geometry (app_win a) win'" using b1[of "app_win a" sheet src ?d] e by simp
    moreover have "iterate_blit P a sheet src dst = Inr (ok, win', ?d)"
      using True e by (simp add: iterate_blit_def Let_def)
    ultimately show ?thesis by blast
  next
    case n1: False
    have scaled: "\<exists>ok win'. SDL_BlitSurfaceScaled P sheet src (app_win a) dst = (ok, win') \<and>
                    same_geometry (app_win a) win'"
    proof -
      obtain ok win' where e: "SDL_BlitSurfaceScaled P sheet src (app_win a) dst = (ok, win')"
        by (cases "SDL_BlitSurfaceScaled P sheet src (app_win a) dst") auto
      have "same_geometry (app_win a) win'" using b2[of "app_win a" sheet src dst] e by simp
      with e show ?thesis by blast
    qed
    show ?thesis
    proof (cases "app_is565 a")
      case False
      from scaled obtain ok win' where e: "SDL_BlitSurfaceScaled P sheet src (app_win a) dst = (ok, win')"
        "same_geometry (app_win a) win'" by blast
      have "iterate_blit P a sheet src dst = Inr (ok, win', dst)"
        using n1 False e(1) by (simp add: iterate_blit_def)
      with e(2) show ?thesis by blast
    next
      case True
      show ?thesis
      proof (cases "app_scale a = 2 \<or> app_scale a = 3 \<or> app_scale a = 4 \<or> app_scale a = 0.5")
        case False
        from scaled obtain ok win' where e: "SDL_BlitSurfaceScaled P sheet src (app_win a) dst = (ok, win')"
          "same_geometry (app_win a) win'" by blast
        have "iterate_blit P a sheet src dst = Inr (ok, win', dst)"
          using n1 True e(1) blit_fast_not_handled[OF False, of P sheet src "app_win a" dst "app_key565 a"]
          by (simp add: iterate_blit_def)
        with e(2) show ?thesis by blast
      next
        case fast: True
        have rdy: "fast_ready P sheet (app_win a)"
          using fs True lk by (auto simp: fast_ready_def bpp2_def)
        obtain dp where dp: "blit_colorkey_scale_fast_RGB565 P sheet src (app_win a) dst (app_key565 a)
                               (app_scale a) = Inr (True, (app_win a)\<lparr>surf_pixels := dp\<rparr>)"
          using blit_fast_pixels[OF rdy fast sr dr[OF fast], where key = "app_key565 a"] by blast
        have "same_geometry (app_win a) ((app_win a)\<lparr>surf_pixels := dp\<rparr>)"
          by (rule blit_fast_same_geometry[OF dp])
        moreover have "iterate_blit P a sheet src dst = Inr (True, (app_win a)\<lparr>surf_pixels := dp\<rparr>, dst)"
          using n1 True dp by (simp add: iterate_blit_def)
        ultimately show ?thesis by blast
      qed
    qed
  qed
qed

lemma app_ok_cong:
  assumes ok: "app_ok P a"
    and e: "app_cols b = app_cols a" "app_rows b = app_rows a" "app_frames b = app_frames a"
      "app_anim_step_ms_eff b = app_anim_step_ms_eff a" "app_rot b = app_rot a"
      "app_sheet_rot b = app_sheet_rot a" "app_tex_w b = app_tex_w a" "app_tex_h b = app_tex_h a"
      "app_fw b = app_fw a" "app_fh b = app_fh a" "app_screen_w b = app_screen_w a"
      "app_screen_h b = app_screen_h a" "app_scale b = app_scale a" "app_is565 b = app_is565 a"
    and w: "same_geometry (app_win a) (app_win b)"
    and f: "0 \<le> app_frame b" "app_frame b < app_frames b"
  shows "app_ok P b"
proof -
  have ds: "draw_size_for_rot P b (app_rot a) = draw_size_for_rot P a (app_rot a)"
    by (rule draw_size_for_rot_cong) (simp_all add: e)
  have wd: "surf_w (app_win b) = surf_w (app_win a)" "surf_h (app_win b) = surf_h (app_win a)"
    using w by (simp_all add: same_geometry_def)
  have wk: "bpp2 P (app_win a) \<and> surface_ok P (app_win a) \<Longrightarrow>
            bpp2 P (app_win b) \<and> surface_ok P (app_win b)"
    using same_geometry_ok[OF w] by blast
  show ?thesis
    using ok f wk unfolding app_ok_def e ds wd by blast
qed

lemma iterate_draw_ok:
  assumes pk: "platform_ok P" and ok: "app_ok P a"
    and ds: "draw_size_for_rot P a (app_rot a) = (dw, dh)"
    and pos: "0 \<le> int_of_float (app_x a)" "int_of_float (app_x a) + dw \<le> app_screen_w a"
      "0 \<le> int_of_float (app_y a)" "int_of_float (app_y a) + dh \<le> app_screen_h a"
  shows "\<exists>a'. iterate_draw P dw dh a = Inr (SDL_APP_CONTINUE, a') \<and> app_ok P a'"
proof -
  from pk have fo: "float_ok P"
    and fill: "\<And>s r c. same_geometry s (SDL_FillSurfaceRect P s r c)"
    unfolding platform_ok_def by blast+
  define a2 where "a2 = (if app_has_prev a
               then a\<lparr>app_win := SDL_FillSurfaceRect P (app_win a) (Some (app_prev_dst a)) (app_black a)\<rparr>
               else a)"
  have k: "app_cols a2 = app_cols a" "app_rows a2 = app_rows a" "app_frames a2 = app_frames a"
      "app_anim_step_ms_eff a2 = app_anim_step_ms_eff a" "app_rot a2 = app_rot a"
      "app_sheet_rot a2 = app_sheet_rot a" "app_tex_w a2 = app_tex_w a" "app_tex_h a2 = app_tex_h a"
      "app_fw a2 = app_fw a" "app_fh a2 = app_fh a" "app_screen_w a2 = app_screen_w a"
      "app_screen_h a2 = app_screen_h a" "app_scale a2 = app_scale a" "app_is565 a2 = app_is565 a"
    and k2: "app_frame a2 = app_frame a" "app_x a2 = app_x a" "app_y a2 = app_y a"
    by (simp_all add: a2_def)
  have g2: "same_geometry (app_win a) (app_win a2)"
    using fill by (simp add: a2_def same_geometry_refl)
  have fr: "0 \<le> app_frame a2" "app_frame a2 < app_frames a2"
    using ok unfolding k k2 app_ok_def by simp_all
  have ok2: "app_ok P a2"
    by (rule app_ok_cong[OF ok k g2 fr])
  from app_ok_sheet[OF ok2] obtain sheet cols_r rows_r fw_r fh_r where
    s: "sheet_rot_at a2 (app_rot a2) = Inr sheet"
    and g: "grid_for_rot a2 (app_rot a2) = (cols_r, rows_r, fw_r, fh_r)"
    and c: "0 < cols_r" "0 < rows_r" "0 \<le> surf_w sheet" "0 \<le> surf_h sheet"
      "cols_r dvd surf_w sheet" "rows_r dvd surf_h sheet"
      "fw_r = surf_w sheet div cols_r" "fh_r = surf_h sheet div rows_r"
    and lt: "fw_r < 2 ^ 20" "fh_r < 2 ^ 20"
    and fs: "app_is565 a2 \<longrightarrow> bpp2 P sheet \<and> surface_ok P sheet"
    by blast
  from app_ok_src[OF ok2 s g c] obtain src where
    src: "get_src_for_frame_rot a2 (app_frame a2) (app_rot a2) = Inr src"
    and sr: "rect_in_surface src sheet" and sz: "rect_w src = fw_r" "rect_h src = fh_r"
    by blast
  have f0: "0 \<le> fw_r" "0 \<le> fh_r"
    using c by (simp_all add: pos_imp_zdiv_nonneg_iff)
  from ok2 obtain t :: int where t: "1 \<le> t" "t \<le> 12" "app_scale a2 = of_int t / 2"
    unfolding app_ok_def by blast
  have ds2: "draw_size_for_rot P a2 (app_rot a2) = (dw, dh)"
  proof -
    have "draw_size_for_rot P a2 (app_rot a) = draw_size_for_rot P a (app_rot a)"
      by (rule draw_size_for_rot_cong) (simp_all add: k)
    then show ?thesis using ds by (simp add: k)
  qed
  have dwh: "dw = (fw_r * t + 1) div 2" "dh = (fh_r * t + 1) div 2"
    using app_ok_draw_size[OF fo g f0(1) lt(1) f0(2) lt(2) t] ds2 by simp_all
  have d0: "0 \<le> dw" "0 \<le> dh"
  proof -
    have "0 \<le> fw_r * t" "0 \<le> fh_r * t" using f0 t by simp_all
    then show "0 \<le> dw" "0 \<le> dh" unfolding dwh by simp_all
  qed
  from ok2 have scr: "app_screen_w a2 = surf_w (app_win a2)" "app_screen_h a2 = surf_h (app_win a2)"
    and wk: "app_is565 a2 \<longrightarrow> bpp2 P (app_win a2) \<and> surface_ok P (app_win a2)"
    unfolding app_ok_def by blast+
  let ?dst = "\<lparr>rect_x = int_of_float (app_x a2), rect_y = int_of_float (app_y a2),
                rect_w = dw, rect_h = dh\<rparr>"
  note xy = k2(2,3) k(11,12)
  have dr: "rect_in_surface (fast_region src ?dst (app_scale a2)) (app_win a2)"
    if fast: "app_scale a2 = 2 \<or> app_scale a2 = 3 \<or> app_scale a2 = 4 \<or> app_scale a2 = 0.5"
  proof -
    have ex: "fast_extent (app_scale a2) (rect_w src) = dw"
      "fast_extent (app_scale a2) (rect_h src) = dh"
      unfolding sz dwh
      using half_scale_extent[OF t fast, of fw_r] half_scale_extent[OF t fast, of fh_r]
      by simp_all
    show ?thesis
      unfolding rect_in_surface_def fast_region_def
      using pos d0 scr[symmetric] by (simp add: ex xy)
  qed
  have fs2: "app_is565 a2 \<longrightarrow> bpp2 P sheet \<and> surface_ok P sheet \<and>
               bpp2 P (app_win a2) \<and> surface_ok P (app_win a2)"
    using fs wk by blast
  from iterate_blit_ok[OF pk fs2 sr dr] obtain blit_ok win' dst' where
    bl: "iterate_blit P a2 sheet src ?dst = Inr (blit_ok, win', dst')"
    and gw: "same_geometry (app_win a2) win'"
    by blast
  let ?a3 = "a2\<lparr>app_win := win', app_prev_dst := dst', app_has_prev := True\<rparr>"
  have r: "iterate_draw P dw dh a = Inr (SDL_APP_CONTINUE, ?a3)"
    unfolding iterate_draw_def Let_def a2_def[symmetric] s src sum.case bl prod.case ..
  have g3: "same_geometry (app_win a2) (app_win ?a3)" using gw by simp
  have fr3: "0 \<le> app_frame ?a3" "app_frame ?a3 < app_frames ?a3" using fr by simp_all
  have "app_ok P ?a3"
    by (rule app_ok_cong[OF ok2 _ _ _ _ _ _ _ _ _ _ _ _ _ _ g3 fr3]) simp_all
  with r show ?thesis by blast
qed

lemma app_ok_draw_size_nonneg:
  assumes fo: "float_ok P" and ok: "app_ok P a"
  shows "0 \<le> fst (draw_size_for_rot P a (app_rot a))" "0 \<le> snd (draw_size_for_rot P a (app_rot a))"
proof -
  from app_ok_sheet[OF ok] obtain sheet cols_r rows_r fw_r fh_r where
    s: "sheet_rot_at a (app_rot a) = Inr sheet"
    and g: "grid_for_rot a (app_rot a) = (cols_r, rows_r, fw_r, fh_r)"
    and c: "0 < cols_r" "0 < rows_r" "0 \<le> surf_w sheet" "0 \<le> surf_h sheet"
      "cols_r dvd surf_w sheet" "rows_r dvd surf_h sheet"
      "fw_r = surf_w sheet div cols_r" "fh_r = surf_h sheet div rows_r"
    and lt: "fw_r < 2 ^ 20" "fh_r < 2 ^ 20"
    and fs: "app_is565 a \<longrightarrow> bpp2 P sheet \<and> surface_ok P sheet"
    by blast
  have f0: "0 \<le> fw_r" "0 \<le> fh_r"
    using c by (simp_all add: pos_imp_zdiv_nonneg_iff)
  from ok obtain t :: int where t: "1 \<le> t" "t \<le> 12" "app_scale a = of_int t / 2"
    unfolding app_ok_def by blast
  note ds = app_ok_draw_size[OF fo g f0(1) lt(1) f0(2) lt(2) t]
  have "0 \<le> fw_r * t" "0 \<le> fh_r * t" using f0 t by simp_all
  then show "0 \<le> fst (draw_size_for_rot P a (app_rot a))"
    "0 \<le> snd (draw_size_for_rot P a (app_rot a))"
    unfolding ds by simp_all
qed

lemma SDL_AppIterate_ok:
  assumes pk: "platform_ok P" and ok: "app_ok P a"
  shows "\<exists>a'. SDL_AppIterate P now a = Some (Inr (SDL_APP_CONTINUE, a')) \<and> app_ok P a'"
proof -
  from pk have fo: "float_ok P" unfolding platform_ok_def by blast
  from ok have st: "app_anim_step_ms_eff a \<noteq> 0" "0 < app_frames a"
    "0 \<le> app_frame a" "app_frame a < app_frames a"
    unfolding app_ok_def by auto
  from iterate_anim_ok[OF st, of now] obtain acc f where
    an: "iterate_anim now a =
           Some (Inr (a\<lparr>app_last_ms := now, app_ms_accum := acc, app_frame := f\<rparr>))"
    and f: "0 \<le> f" "f < app_frames a"
    by blast
  define a1 where "a1 = a\<lparr>app_last_ms := now, app_ms_accum := acc, app_frame := f\<rparr>"
  have g1: "same_geometry (app_win a) (app_win a1)" by (simp add: a1_def same_geometry_refl)
  have fr1: "0 \<le> app_frame a1" "app_frame a1 < app_frames a1" using f by (simp_all add: a1_def)
  have ok1: "app_ok P a1"
    by (rule app_ok_cong[OF ok _ _ _ _ _ _ _ _ _ _ _ _ _ _ g1 fr1]) (simp_all add: a1_def)
  obtain dw dh where ds: "draw_size_for_rot P a1 (app_rot a1) = (dw, dh)"
    by (cases "draw_size_for_rot P a1 (app_rot a1)") auto
  have d0: "0 \<le> dw" "0 \<le> dh"
    using app_ok_draw_size_nonneg[OF fo ok1] ds by simp_all
  from ok1 have fit: "dw \<le> app_screen_w a1" "dh \<le> app_screen_h a1"
    and sc: "app_screen_w a1 < 2 ^ 23" "app_screen_h a1 < 2 ^ 23"
    unfolding app_ok_def ds by simp_all
  define am where "am = iterate_move P dw dh a1"
  note bx = bounce_axis[OF fo d0(1) fit(1) sc(1), of "app_x a1" "app_vx a1"]
  note by' = bounce_axis[OF fo d0(2) fit(2) sc(2), of "app_y a1" "app_vy a1"]
  note fl = iterate_move_fields[of P dw dh a1]
  have km: "app_cols am = app_cols a1" "app_rows am = app_rows a1" "app_frames am = app_frames a1"
      "app_anim_step_ms_eff am = app_anim_step_ms_eff a1" "app_rot am = app_rot a1"
      "app_sheet_rot am = app_sheet_rot a1" "app_tex_w am = app_tex_w a1" "app_tex_h am = app_tex_h a1"
      "app_fw am = app_fw a1" "app_fh am = app_fh a1" "app_screen_w am = app_screen_w a1"
      "app_screen_h am = app_screen_h a1" "app_scale am = app_scale a1" "app_is565 am = app_is565 a1"
    and km2: "app_frame am = app_frame a1" "app_win am = app_win a1"
    unfolding am_def by (simp_all add: iterate_move_keeps)
  have px: "0 \<le> int_of_float (app_x am)"
    unfolding am_def fl(1) by (rule bx(1))
  have px2: "int_of_float (app_x am) + dw \<le> app_screen_w am"
    unfolding am_def fl(1) iterate_move_keeps(11) by (rule bx(2))
  have py: "0 \<le> int_of_float (app_y am)"
    unfolding am_def fl(2) by (rule by'(1))
  have py2: "int_of_float (app_y am) + dh \<le> app_screen_h am"
    unfolding am_def fl(2) iterate_move_keeps(12) by (rule by'(2))
  note pos = px px2 py py2
  have gm: "same_geometry (app_win a1) (app_win am)" by (simp add: km2 same_geometry_refl)
  have frm: "0 \<le> app_frame am" "app_frame am < app_frames am" using fr1 by (simp_all add: km km2)
  have okm: "app_ok P am" by (rule app_ok_cong[OF ok1 km gm frm])
  have dsm: "draw_size_for_rot P am (app_rot am) = (dw, dh)"
  proof -
    have "draw_size_for_rot P am (app_rot a1) = draw_size_for_rot P a1 (app_rot a1)"
      by (rule draw_size_for_rot_cong) (simp_all add: km)
    then show ?thesis using ds by (simp add: km)
  qed
  from iterate_draw_ok[OF pk okm dsm pos] obtain a' where
    a': "iterate_draw P dw dh am = Inr (SDL_APP_CONTINUE, a')" "app_ok P a'"
    by blast
  have "SDL_AppIterate P now a = Some (Inr (SDL_APP_CONTINUE, a'))"
    unfolding SDL_AppIterate_def an a1_def[symmetric]
    by (simp add: ds a'(1)[unfolded am_def])
  with a'(2) show ?thesis by blast
qed

text \<open>
  C10: whenever a tick returns, it returns \<open>SDL_APP_CONTINUE\<close> with \<open>has_prev\<close> true and
  \<open>prev_dst\<close> equal to the destination rectangle of that tick, whatever the blit functions of
  the platform reported; and in every state described by \<open>app_ok\<close>, on a platform described by
  \<open>platform_ok\<close>, the tick does return, in such a state again.
\<close>

theorem iterate_tracks_dirty_rect:
  "(\<forall>r a'. SDL_AppIterate P now a = Some (Inr (r, a')) \<longrightarrow>
       r = SDL_APP_CONTINUE \<and> app_has_prev a' \<and> tick_dst P a' = Inr (app_prev_dst a')) \<and>
   (platform_ok P \<and> app_ok P a \<longrightarrow>
       (\<exists>a'. SDL_AppIterate P now a = Some (Inr (SDL_APP_CONTINUE, a')) \<and> app_ok P a' \<and>
             app_has_prev a' \<and> tick_dst P a' = Inr (app_prev_dst a')))"
proof -
  have a: "\<forall>r a'. SDL_AppIterate P now a = Some (Inr (r, a')) \<longrightarrow>
       r = SDL_APP_CONTINUE \<and> app_has_prev a' \<and> tick_dst P a' = Inr (app_prev_dst a')"
    using SDL_AppIterate_tracks by blast
  have b: "\<exists>a'. SDL_AppIterate P now a = Some (Inr (SDL_APP_CONTINUE, a')) \<and> app_ok P a' \<and>
             app_has_prev a' \<and> tick_dst P a' = Inr (app_prev_dst a')"
    if h: "platform_ok P \<and> app_ok P a"
  proof -
    from SDL_AppIterate_ok[of P a now] h obtain a' where
      a': "SDL_AppIterate P now a = Some (Inr (SDL_APP_CONTINUE, a'))" "app_ok P a'" by blast
    from SDL_AppIterate_tracks[OF a'(1)] a' show ?thesis by blast
  qed
  from a b show ?thesis by blast
qed

lemma packed_platform_ok: "platform_ok packed_platform"
  using packed_platform_float_ok
  by (simp add: platform_ok_def same_geometry_def packed_platform_def)

lemma less_4_cases: "(r::nat) < 4 \<longleftrightarrow> r = 0 \<or> r = 1 \<or> r = 2 \<or> r = 3"
  by auto

lemma example_sheet_ok:
  assumes "0 \<le> sw" "0 \<le> sh"
  shows "bpp2 packed_platform (example_sheet sw sh)" "surface_ok packed_platform (example_sheet sw sh)"
  using assms
  by (simp_all add: bpp2_def packed_platform_def example_sheet_def surface_ok_def surface_bpp_def
      grid_ok_def)

lemma example_window_ok:
  "bpp2 packed_platform example_window" "surface_ok packed_platform example_window"
  by (simp_all add: bpp2_def packed_platform_def example_window_def surface_ok_def surface_bpp_def
      grid_ok_def)

lemma example_app_ok:
  assumes "sc = 2 \<and> eff = 41 \<or> sc = 2.5 \<and> eff = 82"
  shows "app_ok packed_platform
           ((example_app 800 400)\<lparr>app_scale := sc, app_anim_step_ms_eff := eff\<rparr>)"
proof -
  let ?a = "(example_app 800 400)\<lparr>app_scale := sc, app_anim_step_ms_eff := eff\<rparr>"
  have v: "app_cols ?a = 8" "app_rows ?a = 4" "app_frames ?a = 32" "app_frame ?a = 0"
    "app_rot ?a = 0" "app_tex_w ?a = 800" "app_tex_h ?a = 400" "app_fw ?a = 100" "app_fh ?a = 100"
    "app_screen_w ?a = 720" "app_screen_h ?a = 720" "app_win ?a = example_window"
    "app_sheet_rot ?a = [example_sheet 800 400, example_sheet 400 800, example_sheet 800 400,
                          example_sheet 400 800]"
    "app_scale ?a = sc" "app_anim_step_ms_eff ?a = eff"
    by (simp_all add: example_app_def SPRITE_COLS_def SPRITE_ROWS_def signed_divide_int_def)
  have e: "f_add packed_platform r s = r + s" "f_of_int packed_platform n = of_int n"
    "f_mul packed_platform r s = r * s" for r s n
    by (simp_all add: f_add_def f_of_int_def f_mul_def packed_platform_def)
  have v0: "app_fw (example_app 800 400) = 100" "app_fh (example_app 800 400) = 100"
    "app_cols (example_app 800 400) = 8" "app_rows (example_app 800 400) = 4"
    using v(8,9,1,2) by simp_all
  have dv: "draw_size_for_rot packed_platform ?a 0 =
              (int_of_float (100 * sc + 1 / 2), int_of_float (100 * sc + 1 / 2))"
    by (simp add: draw_size_for_rot_def grid_for_rot_def v v0 e Let_def)
  have i2: "int_of_float (100 * 2 + 1 / 2) = 200" "int_of_float (100 * (5 / 2) + 1 / 2) = 250"
    by (simp_all add: int_of_float_def)
  have ds: "draw_size_for_rot packed_platform ?a 0 = (200, 200) \<or>
            draw_size_for_rot packed_platform ?a 0 = (250, 250)"
  proof -
    have "sc = 2 \<or> sc = 5 / 2" using assms by auto
    then show ?thesis
    proof
      assume h: "sc = 2"
      show ?thesis unfolding dv unfolding h i2 by simp
    next
      assume h: "sc = 5 / 2"
      show ?thesis unfolding dv unfolding h i2 by simp
    qed
  qed
  have t: "\<exists>t::int. 1 \<le> t \<and> t \<le> 12 \<and> sc = of_int t / 2"
  proof -
    have "sc = of_int 4 / 2 \<or> sc = of_int 5 / 2" using assms by auto
    then show ?thesis by force
  qed
  have w: "surf_w example_window = 720" "surf_h example_window = 720"
    by (simp_all add: example_window_def)
  have sh: "\<forall>r<4. surf_w (app_sheet_rot ?a ! r) = (if even r then app_tex_w ?a else app_tex_h ?a) \<and>
              surf_h (app_sheet_rot ?a ! r) = (if even r then app_tex_h ?a else app_tex_w ?a)"
    unfolding v less_4_cases by (auto simp: example_sheet_def)
  have so: "\<forall>r<4. bpp2 packed_platform (app_sheet_rot ?a ! r) \<and>
              surface_ok packed_platform (app_sheet_rot ?a ! r)"
    unfolding v less_4_cases by (auto simp: example_sheet_ok)
  have ef: "eff \<noteq> 0" using assms by auto
  have fit: "fst (draw_size_for_rot packed_platform ?a (app_rot ?a)) \<le> app_screen_w ?a"
    "snd (draw_size_for_rot packed_platform ?a (app_rot ?a)) \<le> app_screen_h ?a"
    using ds unfolding v by auto
  show ?thesis
    unfolding app_ok_def
    using sh so t ef fit example_window_ok
    by (simp add: v w)
qed

theorem iterate_tracks_dirty_rect_witness:
  "(\<exists>a'. SDL_AppIterate packed_platform 16 (example_app 800 400) = Some (Inr (SDL_APP_CONTINUE, a')) \<and>
         app_has_prev a' \<and> tick_dst packed_platform a' = Inr (app_prev_dst a')) \<and>
   (\<exists>a'. SDL_AppIterate packed_platform 16
            ((example_app 800 400)\<lparr>app_scale := 2.5, app_anim_step_ms_eff := 82\<rparr>)
          = Some (Inr (SDL_APP_CONTINUE, a')) \<and>
         app_has_prev a' \<and> tick_dst packed_platform a' = Inr (app_prev_dst a'))"
proof -
  have e: "(example_app 800 400)\<lparr>app_scale := 2, app_anim_step_ms_eff := 41\<rparr> = example_app 800 400"
    by (simp add: example_app_def)
  have o1: "app_ok packed_platform (example_app 800 400)"
    using example_app_ok[of 2 41] unfolding e by simp
  have o2: "app_ok packed_platform ((example_app 800 400)\<lparr>app_scale := 2.5, app_anim_step_ms_eff := 82\<rparr>)"
    using example_app_ok[of "2.5" 82] by simp
  from iterate_tracks_dirty_rect[of packed_platform 16 "example_app 800 400"] packed_platform_ok o1
  have a: "\<exists>a'. SDL_AppIterate packed_platform 16 (example_app 800 400) = Some (Inr (SDL_APP_CONTINUE, a')) \<and>
         app_has_prev a' \<and> tick_dst packed_platform a' = Inr (app_prev_dst a')"
    by blast
  from iterate_tracks_dirty_rect[of packed_platform 16
      "(example_app 800 400)\<lparr>app_scale := 2.5, app_anim_step_ms_eff := 82\<rparr>"] packed_platform_ok o2
  have b: "\<exists>a'. SDL_AppIterate packed_platform 16
            ((example_app 800 400)\<lparr>app_scale := 2.5, app_anim_step_ms_eff := 82\<rparr>)
          = Some (Inr (SDL_APP_CONTINUE, a')) \<and>
         app_has_prev a' \<and> tick_dst packed_platform a' = Inr (app_prev_dst a')"
    by blast
  from a b show ?thesis by blast
qed

end
